theory Spec2Isabelle
  imports Main "HOL-Library.AList" "HOL-Library.Multiset"
begin

section \<open>Python values used by \<^verbatim>\<open>search-custom-markers.py\<close>\<close>

text \<open>
  The script is a straight-line Python 3 program (\<^verbatim>\<open>print(...)\<close>); the model follows
  Python 3.7 to 3.10, where dictionaries keep insertion order and the mode \<^verbatim>\<open>rU\<close> of
  line 49 is still accepted by \<^verbatim>\<open>open\<close>.
  Every exception it can raise is a value of \<open>error\<close>; an uncaught exception ends the
  run before \<^verbatim>\<open>to_csv\<close>, so a run is a value of \<open>error + frame\<close>.
  File names are strings of characters with code points below 256.
\<close>

datatype error = FileExistsError | FileNotFoundError | IndexError | ValueError

subsection \<open>Strings\<close>

text \<open>\<^verbatim>\<open>s.replace(old, new)\<close>: all non-overlapping occurrences, scanned from the left.
  With an empty \<open>old\<close> Python puts \<open>new\<close> before every character and at the end.\<close>

function py_replace :: "string \<Rightarrow> string \<Rightarrow> string \<Rightarrow> string" where
  "py_replace old new s =
     (if old = [] then new @ concat (map (\<lambda>c. c # new) s)
      else if s = [] then []
      else if take (length old) s = old then new @ py_replace old new (drop (length old) s)
      else hd s # py_replace old new (tl s))"
  by pat_completeness auto
termination
  by (relation "measure (\<lambda>(old, new, s). length s)") auto

declare py_replace.simps [simp del]

text \<open>\<^verbatim>\<open>s.split(sep)\<close> for a one-character separator (the script only splits on "-").\<close>

fun py_split :: "char \<Rightarrow> string \<Rightarrow> string list" where
  "py_split sep [] = [[]]"
| "py_split sep (c # cs) =
     (if c = sep then [] # py_split sep cs
      else (case py_split sep cs of
              [] \<Rightarrow> [[c]]
            | w # ws \<Rightarrow> (c # w) # ws))"

text \<open>\<^verbatim>\<open>xs[i]\<close> for \<open>i \<ge> 0\<close>: IndexError out of range.\<close>

definition py_index :: "'a list \<Rightarrow> nat \<Rightarrow> error + 'a" where
  "py_index xs i = (if i < length xs then Inr (xs ! i) else Inl IndexError)"

text \<open>\<^verbatim>\<open>str.isspace\<close> on one character, and the line boundaries of
  \<^verbatim>\<open>str.splitlines\<close>.\<close>

definition py_isspace :: "char \<Rightarrow> bool" where
  "py_isspace c =
     (let n = (of_char c :: nat)
      in (9 \<le> n \<and> n \<le> 13) \<or> (28 \<le> n \<and> n \<le> 32) \<or> n = 133 \<or> n = 160)"

definition py_islinebreak :: "char \<Rightarrow> bool" where
  "py_islinebreak c =
     (let n = (of_char c :: nat)
      in (10 \<le> n \<and> n \<le> 13) \<or> (28 \<le> n \<and> n \<le> 30) \<or> n = 133)"

definition py_strip :: "string \<Rightarrow> string" where
  "py_strip s = rev (dropWhile py_isspace (rev (dropWhile py_isspace s)))"

text \<open>\<^verbatim>\<open>s.splitlines()[0]\<close>: the empty string has no lines, so the index raises;
  otherwise the first line is the text before the first line boundary.\<close>

definition first_line :: "string \<Rightarrow> error + string" where
  "first_line s =
     (if s = [] then Inl IndexError else Inr (takeWhile (\<lambda>c. \<not> py_islinebreak c) s))"

text \<open>\<^verbatim>\<open>os.path.basename\<close>: the text after the last slash.\<close>

definition basename :: "string \<Rightarrow> string" where
  "basename p = rev (takeWhile (\<lambda>c. c \<noteq> CHR ''/'') (rev p))"

text \<open>\<^verbatim>\<open>sub in s\<close> for strings.\<close>

fun py_in :: "string \<Rightarrow> string \<Rightarrow> bool" where
  "py_in sub [] = (sub = [])"
| "py_in sub (c # cs) = (take (length sub) (c # cs) = sub \<or> py_in sub cs)"

subsection \<open>Identifiers (lines 29, 33 and 62)\<close>

text \<open>Line 29: \<^verbatim>\<open>name=os.path.basename(genome).replace(".faa", "").strip().splitlines()[0]\<close>.\<close>

definition genome_name :: "string \<Rightarrow> error + string" where
  "genome_name genome = first_line (py_strip (py_replace ''.faa'' [] (basename genome)))"

text \<open>Line 33: \<^verbatim>\<open>prot=os.path.basename(marker).replace(".hmm", "").strip().splitlines()[0]\<close>.\<close>

definition marker_prot :: "string \<Rightarrow> error + string" where
  "marker_prot marker = first_line (py_strip (py_replace ''.hmm'' [] (basename marker)))"

text \<open>Line 62: \<^verbatim>\<open>prot=os.path.basename(marker).replace(".hmm", "")\<close> (no strip, no
  splitlines).\<close>

definition col_prot :: "string \<Rightarrow> string" where
  "col_prot marker = py_replace ''.hmm'' [] (basename marker)"

text \<open>Line 34: the path handed to hmmsearch, and the file name inside the genome's
  directory.\<close>

definition report_file :: "string \<Rightarrow> string \<Rightarrow> string" where
  "report_file name prot = name @ ''-'' @ prot @ ''.out''"

definition outname :: "string \<Rightarrow> string \<Rightarrow> string" where
  "outname name prot = ''out/'' @ name @ ''/'' @ report_file name prot"

text \<open>Lines 46 to 48: what the parser rebuilds from a file name.\<close>

definition file_genome :: "string \<Rightarrow> error + string" where
  "file_genome file = py_index (py_split CHR ''-'' file) 0"

definition file_prot :: "string \<Rightarrow> error + string" where
  "file_prot file = py_index (py_split CHR ''-'' (py_replace ''.out'' [] file)) 1"

definition result_path :: "string \<Rightarrow> string \<Rightarrow> string" where
  "result_path genome file = ''out/'' @ genome @ ''/'' @ file"

section \<open>The search engine's reports, as \<^verbatim>\<open>Bio.SearchIO\<close> reads them\<close>

text \<open>
  A report is the \<^verbatim>\<open>--tblout\<close> table hmmsearch wrote: after the comment
  header, one row per hit, naming the target sequence and the query profile. The
  \<^verbatim>\<open>hmmer3-tab\<close> parser makes one QueryResult of each run of consecutive rows with
  the same query, so a table without rows yields no QueryResult at all; a QueryResult
  refuses a second hit with the same target id, and a row with too few columns is
  refused, both with ValueError.
\<close>

type_synonym hit_row = "string \<times> string"

datatype report = Table "hit_row list" | Malformed

fun group_rows :: "hit_row list \<Rightarrow> (string \<times> string list) list" where
  "group_rows [] = []"
| "group_rows ((target, query) # rs) =
     (case group_rows rs of
        [] \<Rightarrow> [(query, [target])]
      | (q, ts) # gs \<Rightarrow>
          if q = query then (query, target # ts) # gs
          else (query, [target]) # (q, ts) # gs)"

definition searchio_parse :: "report \<Rightarrow> error + (string \<times> string list) list" where
  "searchio_parse r =
     (case r of
        Malformed \<Rightarrow> Inl ValueError
      | Table rs \<Rightarrow>
          if list_all (\<lambda>(q, ts). distinct ts) (group_rows rs) then Inr (group_rows rs)
          else Inl ValueError)"

section \<open>The report directory\<close>

text \<open>
  The model starts after lines 21 to 24, in a fresh working directory: \<^verbatim>\<open>out/\<close> is
  empty. \<open>fs_dirs\<close> lists the subdirectories of \<^verbatim>\<open>out/\<close> with the names of their
  entries, in creation order; \<open>fs_files\<close> maps a path to the content of the file there.
  The search engine is a parameter: \<open>search marker genome\<close> is the report that
  \<^verbatim>\<open>hmmsearch --cut_tc --tblout=outname marker genome\<close> leaves at \<open>outname\<close>,
  or \<open>None\<close> when it leaves no file (its exit status is not looked at, line 36).
\<close>

record filesystem =
  fs_dirs :: "(string \<times> string list) list"
  fs_files :: "(string \<times> report) list"

type_synonym search = "string \<Rightarrow> string \<Rightarrow> report option"

definition empty_fs :: filesystem where
  "empty_fs = \<lparr>fs_dirs = [], fs_files = []\<rparr>"

text \<open>Line 31, \<^verbatim>\<open>os.mkdir("out/"+dir)\<close>: raises when the path exists already.\<close>

definition mkdir :: "string \<Rightarrow> filesystem \<Rightarrow> error + filesystem" where
  "mkdir dir fs =
     (if dir \<in> fst ` set (fs_dirs fs) \<or> dir = ''.'' \<or> dir = ''..'' then Inl FileExistsError
      else Inr (fs\<lparr>fs_dirs := fs_dirs fs @ [(dir, [])]\<rparr>))"

text \<open>Lines 34 to 36: hmmsearch creates or overwrites the file at \<open>outname\<close>.\<close>

definition write_report :: "string \<Rightarrow> string \<Rightarrow> report \<Rightarrow> filesystem \<Rightarrow> filesystem" where
  "write_report name prot r fs =
     fs\<lparr>fs_dirs :=
          AList.map_entry name
            (\<lambda>entries. if report_file name prot \<in> set entries then entries
                        else entries @ [report_file name prot])
            (fs_dirs fs),
        fs_files := AList.update (outname name prot) r (fs_files fs)\<rparr>"

section \<open>Run HMMs (lines 28 to 37)\<close>

fun search_markers ::
  "search \<Rightarrow> string \<Rightarrow> string \<Rightarrow> string list \<Rightarrow> filesystem \<Rightarrow> error + filesystem" where
  "search_markers search genome name [] fs = Inr fs"
| "search_markers search genome name (marker # markers) fs =
     (case marker_prot marker of
        Inl e \<Rightarrow> Inl e
      | Inr prot \<Rightarrow>
          search_markers search genome name markers
            (case search marker genome of
               None \<Rightarrow> fs
             | Some r \<Rightarrow> write_report name prot r fs))"

fun run_hmms :: "search \<Rightarrow> string list \<Rightarrow> string list \<Rightarrow> filesystem \<Rightarrow> error + filesystem" where
  "run_hmms search [] markers fs = Inr fs"
| "run_hmms search (genome # genomes) markers fs =
     (case genome_name genome of
        Inl e \<Rightarrow> Inl e
      | Inr name \<Rightarrow>
          (case mkdir name fs of
             Inl e \<Rightarrow> Inl e
           | Inr fs1 \<Rightarrow>
               (case search_markers search genome name markers fs1 of
                  Inl e \<Rightarrow> Inl e
                | Inr fs2 \<Rightarrow> run_hmms search genomes markers fs2)))"

section \<open>Parse the reports (lines 41 to 54)\<close>

text \<open>
  \<^verbatim>\<open>all_dicts[key] = genome_dict\<close> stores a reference: the dictionary keeps
  changing after it was stored. \<open>objs\<close> holds the \<^verbatim>\<open>genome_dict\<close> objects,
  one per tuple of the walk, and \<open>all_dicts\<close> maps a key to the position of an object.
  Dictionaries keep insertion order: an association list, updated in place.
\<close>

record agg =
  all_dicts :: "(string \<times> nat) list"
  objs :: "(string \<times> int) list list"

text \<open>Lines 50 to 54, once per QueryResult of the report.\<close>

fun record_hits ::
  "nat \<Rightarrow> string \<Rightarrow> string \<Rightarrow> (string \<times> string list) list \<Rightarrow> agg \<Rightarrow> error + agg" where
  "record_hits ref prot file [] a = Inr a"
| "record_hits ref prot file ((query, hits) # qresults) a =
     (let num_hits = int (length hits);
          a1 = a\<lparr>objs := (objs a)[ref := AList.update prot num_hits (objs a ! ref)]\<rparr>
      in case file_genome (basename file) of
           Inl e \<Rightarrow> Inl e
         | Inr key \<Rightarrow>
             record_hits ref prot file qresults
               (a1\<lparr>all_dicts := AList.update key ref (all_dicts a1)\<rparr>))"

text \<open>Lines 45 to 54, over the files of one directory.\<close>

fun parse_files :: "filesystem \<Rightarrow> nat \<Rightarrow> string list \<Rightarrow> agg \<Rightarrow> error + agg" where
  "parse_files fs ref [] a = Inr a"
| "parse_files fs ref (file # files) a =
     (case file_genome file of
        Inl e \<Rightarrow> Inl e
      | Inr genome \<Rightarrow>
     (case file_prot file of
        Inl e \<Rightarrow> Inl e
      | Inr prot \<Rightarrow>
     (case map_of (fs_files fs) (result_path genome file) of
        None \<Rightarrow> Inl FileNotFoundError
      | Some r \<Rightarrow>
     (case searchio_parse r of
        Inl e \<Rightarrow> Inl e
      | Inr qresults \<Rightarrow>
     (case record_hits ref prot file qresults a of
        Inl e \<Rightarrow> Inl e
      | Inr a1 \<Rightarrow> parse_files fs ref files a1)))))"

text \<open>Lines 43 and 44: a new \<^verbatim>\<open>genome_dict\<close> for every tuple of the walk.\<close>

fun parse_dirs :: "filesystem \<Rightarrow> string list list \<Rightarrow> agg \<Rightarrow> error + agg" where
  "parse_dirs fs [] a = Inr a"
| "parse_dirs fs (files # result_dirs) a =
     (case parse_files fs (length (objs a)) files (a\<lparr>objs := objs a @ [[]]\<rparr>) of
        Inl e \<Rightarrow> Inl e
      | Inr a1 \<Rightarrow> parse_dirs fs result_dirs a1)"

text \<open>
  \<^verbatim>\<open>os.walk("out/")\<close>: first \<^verbatim>\<open>out/\<close> itself, which holds no files, then every
  subdirectory. The loop reads only the \<^verbatim>\<open>files\<close> of each tuple. The order in
  which the operating system lists a directory is the parameter \<open>listdir\<close>.
\<close>

definition os_walk :: "(string list \<Rightarrow> string list) \<Rightarrow> filesystem \<Rightarrow> string list list" where
  "os_walk listdir fs =
     [] # map (\<lambda>d. case map_of (fs_dirs fs) d of None \<Rightarrow> [] | Some entries \<Rightarrow> listdir entries)
            (listdir (map fst (fs_dirs fs)))"

definition empty_agg :: agg where
  "empty_agg = \<lparr>all_dicts = [], objs = []\<rparr>"

text \<open>The dictionary of dictionaries that line 55 reads: every reference followed.\<close>

definition deref :: "agg \<Rightarrow> (string \<times> (string \<times> int) list) list" where
  "deref a = map (\<lambda>(key, ref). (key, objs a ! ref)) (all_dicts a)"

definition parse_results ::
  "(string list \<Rightarrow> string list) \<Rightarrow> filesystem \<Rightarrow> error + (string \<times> (string \<times> int) list) list" where
  "parse_results listdir fs =
     (case parse_dirs fs (os_walk listdir fs) empty_agg of
        Inl e \<Rightarrow> Inl e
      | Inr a \<Rightarrow> Inr (deref a))"

section \<open>The data frame (lines 55 to 68)\<close>

text \<open>
  A frame has row labels, column labels and one row of cells per row label; a cell is
  \<open>None\<close> where pandas holds NaN. Counts are Python integers (pandas shows them as
  floats in a column that held a NaN).
\<close>

record frame =
  df_index :: "string list"
  df_columns :: "string list"
  df_cells :: "int option list list"

text \<open>\<^verbatim>\<open>new_data[col][index] = v\<close> on a \<^verbatim>\<open>defaultdict(dict)\<close>.\<close>

definition nested_put ::
  "string \<Rightarrow> string \<Rightarrow> int \<Rightarrow> (string \<times> (string \<times> int) list) list
     \<Rightarrow> (string \<times> (string \<times> int) list) list" where
  "nested_put col idx v new_data =
     AList.update col
       (AList.update idx v (case map_of new_data col of None \<Rightarrow> [] | Some d \<Rightarrow> d))
       new_data"

text \<open>pandas' \<^verbatim>\<open>_from_nested_dict\<close>: the dictionary of rows turned into a dictionary
  of columns, both loops in insertion order.\<close>

definition from_nested_dict ::
  "(string \<times> (string \<times> int) list) list \<Rightarrow> (string \<times> (string \<times> int) list) list" where
  "from_nested_dict data =
     fold (\<lambda>(idx, s) new_data. fold (\<lambda>(col, v). nested_put col idx v) s new_data) data []"

text \<open>Labels in the order first seen.\<close>

definition unique_first :: "'a list \<Rightarrow> 'a list" where
  "unique_first xs = rev (remdups (rev xs))"

text \<open>Line 55, \<^verbatim>\<open>pd.DataFrame.from_dict(all_dicts, orient="index")\<close>: the columns are the
  keys of the nested dictionary, the index is the union of the columns' keys, and a cell
  without a value is NaN.\<close>

definition from_dict :: "(string \<times> (string \<times> int) list) list \<Rightarrow> frame" where
  "from_dict data =
     (let new_data = from_nested_dict data;
          cols = map fst new_data;
          idx = unique_first (concat (map (\<lambda>(col, d). map fst d) new_data))
      in \<lparr>df_index = idx, df_columns = cols,
          df_cells =
            map (\<lambda>i. map (\<lambda>c. case map_of new_data c of None \<Rightarrow> None | Some d \<Rightarrow> map_of d i) cols)
              idx\<rparr>)"

text \<open>Line 67, \<^verbatim>\<open>df.reindex(columns=all_cols)\<close>: a label that is no column of \<open>df\<close>
  gives a column of NaN.\<close>

definition reindex :: "string list \<Rightarrow> frame \<Rightarrow> frame" where
  "reindex cols df =
     \<lparr>df_index = df_index df, df_columns = cols,
      df_cells =
        map (\<lambda>row. map (\<lambda>c. case map_of (zip (df_columns df) row) c of
                                None \<Rightarrow> None
                              | Some v \<Rightarrow> v) cols)
          (df_cells df)\<rparr>"

text \<open>Line 68, \<^verbatim>\<open>fillna(0, inplace=True)\<close>.\<close>

definition fillna :: "int \<Rightarrow> frame \<Rightarrow> frame" where
  "fillna v df =
     df\<lparr>df_cells := map (map (\<lambda>x. case x of None \<Rightarrow> Some v | Some y \<Rightarrow> Some y)) (df_cells df)\<rparr>"

text \<open>Lines 58 to 66.\<close>

definition all_cols :: "string list \<Rightarrow> string list \<Rightarrow> string list" where
  "all_cols markers existing_markers =
     filter (\<lambda>prot. prot \<notin> set existing_markers) (map col_prot markers) @ existing_markers"

text \<open>Lines 55 to 68: the matrix that line 69 writes.\<close>

definition assemble :: "(string \<times> (string \<times> int) list) list \<Rightarrow> string list \<Rightarrow> frame" where
  "assemble dicts markers =
     (let df = from_dict dicts
      in fillna 0 (reindex (all_cols markers (df_columns df)) df))"

section \<open>The whole run\<close>

text \<open>Lines 28 to 54: the searches, then the aggregation of their reports.\<close>

definition aggregate ::
  "(string list \<Rightarrow> string list) \<Rightarrow> search \<Rightarrow> string list \<Rightarrow> string list
     \<Rightarrow> error + (string \<times> (string \<times> int) list) list" where
  "aggregate listdir search genomes markers =
     (case run_hmms search genomes markers empty_fs of
        Inl e \<Rightarrow> Inl e
      | Inr fs \<Rightarrow> parse_results listdir fs)"

definition run ::
  "(string list \<Rightarrow> string list) \<Rightarrow> search \<Rightarrow> string list \<Rightarrow> string list \<Rightarrow> error + frame" where
  "run listdir search genomes markers =
     (case aggregate listdir search genomes markers of
        Inl e \<Rightarrow> Inl e
      | Inr dicts \<Rightarrow> Inr (assemble dicts markers))"

text \<open>The cell of a frame by labels; \<open>None\<close> when the row or the column is not there.\<close>

definition cell :: "frame \<Rightarrow> string \<Rightarrow> string \<Rightarrow> int option" where
  "cell df g m =
     (case map_of (zip (df_index df) (df_cells df)) g of
        None \<Rightarrow> None
      | Some row \<Rightarrow> (case map_of (zip (df_columns df) row) m of None \<Rightarrow> None | Some v \<Rightarrow> v))"

text \<open>Line 69, \<^verbatim>\<open>df_all.to_csv(OUTFILE)\<close>: the file at \<open>OUTFILE\<close> is created or
  overwritten with the text pandas renders for the frame. The rendering is pandas' own
  and is a parameter here; \<open>files\<close> maps a path to the bytes stored there.\<close>

definition to_csv :: "(frame \<Rightarrow> string) \<Rightarrow> string \<Rightarrow> frame \<Rightarrow> (string \<rightharpoonup> string) \<Rightarrow> (string \<rightharpoonup> string)" where
  "to_csv render outfile df files = files(outfile \<mapsto> render df)"

text \<open>The Matrix Assembler as one step on the stored files: lines 55 to 69.\<close>

definition matrix_assembler ::
  "(frame \<Rightarrow> string) \<Rightarrow> string \<Rightarrow> (string \<times> (string \<times> int) list) list \<Rightarrow> string list
     \<Rightarrow> (string \<rightharpoonup> string) \<Rightarrow> (string \<rightharpoonup> string)" where
  "matrix_assembler render outfile dicts markers files =
     to_csv render outfile (assemble dicts markers) files"

section \<open>Notions the properties are stated with\<close>

text \<open>The number of hits a search reported: the rows of its table.\<close>

definition hit_count :: "report option \<Rightarrow> int" where
  "hit_count r = (case r of Some (Table rs) \<Rightarrow> int (length rs) | _ \<Rightarrow> 0)"

text \<open>The count recorded for a genome and a marker in the aggregated dictionaries.\<close>

definition lookup_fact :: "(string \<times> (string \<times> int) list) list \<Rightarrow> string \<Rightarrow> string \<Rightarrow> int option" where
  "lookup_fact dicts g m = (case map_of dicts g of None \<Rightarrow> None | Some d \<Rightarrow> map_of d m)"

text \<open>The markers of the aggregated dictionaries, in the order first encountered:
  genome after genome, and inside a genome in the order its counts were stored.\<close>

definition observed_markers :: "(string \<times> (string \<times> int) list) list \<Rightarrow> string list" where
  "observed_markers dicts = unique_first (concat (map (\<lambda>(g, d). map fst d) dicts))"

text \<open>The markers of the marker input set that no genome's dictionary holds, in
  marker-input order (lines 61 to 64).\<close>

definition absent_markers :: "string list \<Rightarrow> (string \<times> (string \<times> int) list) list \<Rightarrow> string list" where
  "absent_markers markers dicts =
     filter (\<lambda>prot. prot \<notin> set (observed_markers dicts)) (map col_prot markers)"

text \<open>
  A worked scenario: genomes A and B, markers m1, m2 and m3; the search reports two hits
  of m1 in A, one hit of m2 in B and no hit for every other pair. \<open>broken_search\<close> is
  the same run with a malformed report for m2 in B.
\<close>

definition scenario_genomes :: "string list" where
  "scenario_genomes = [''genomes/A.faa'', ''genomes/B.faa'']"

definition scenario_markers :: "string list" where
  "scenario_markers = [''markers/m1.hmm'', ''markers/m2.hmm'', ''markers/m3.hmm'']"

definition scenario_search :: search where
  "scenario_search m g =
     (if g = ''genomes/A.faa'' \<and> m = ''markers/m1.hmm''
      then Some (Table [(''seqA1'', ''m1''), (''seqA2'', ''m1'')])
      else if g = ''genomes/B.faa'' \<and> m = ''markers/m2.hmm''
      then Some (Table [(''seqB1'', ''m2'')])
      else Some (Table []))"

definition broken_search :: search where
  "broken_search m g =
     (if g = ''genomes/B.faa'' \<and> m = ''markers/m2.hmm'' then Some Malformed
      else scenario_search m g)"

definition scenario_frame :: frame where
  "scenario_frame =
     \<lparr>df_index = [''A'', ''B''], df_columns = [''m3'', ''m1'', ''m2''],
      df_cells = [[Some 0, Some 2, Some 0], [Some 0, Some 0, Some 1]]\<rparr>"

text \<open>The matrix of the same scenario when the two genome files are enumerated, or the
  directory \<^verbatim>\<open>out/\<close> is listed, in the opposite order.\<close>

definition reordered_frame :: frame where
  "reordered_frame =
     \<lparr>df_index = [''B'', ''A''], df_columns = [''m3'', ''m2'', ''m1''],
      df_cells = [[Some 0, Some 1, Some 0], [Some 0, Some 0, Some 2]]\<rparr>"

text \<open>The identifier of a genome file, when line 29 derives one.\<close>

definition name_of :: "string \<Rightarrow> string" where
  "name_of genome = (case genome_name genome of Inl e \<Rightarrow> [] | Inr name \<Rightarrow> name)"

text \<open>
  Inputs on which the file names of the reports can be read back (see C10): every genome
  file has an identifier without "-", other than "." and "..", and no two genomes share
  one; every marker file has the same identifier at line 33 and at line 62, without "-"
  and without ".out", and no two markers share one.
\<close>

definition good_genomes :: "string list \<Rightarrow> bool" where
  "good_genomes genomes \<longleftrightarrow>
     (\<forall>g\<in>set genomes. case genome_name g of
          Inl e \<Rightarrow> False
        | Inr name \<Rightarrow> CHR ''-'' \<notin> set name \<and> name \<noteq> ''.'' \<and> name \<noteq> ''..'') \<and>
     distinct (map name_of genomes)"

definition good_markers :: "string list \<Rightarrow> bool" where
  "good_markers markers \<longleftrightarrow>
     (\<forall>m\<in>set markers. marker_prot m = Inr (col_prot m) \<and> CHR ''-'' \<notin> set (col_prot m) \<and>
          \<not> py_in ''.out'' (col_prot m)) \<and>
     distinct (map col_prot markers)"

text \<open>Every search left either no file or a table that parses into at most one
  QueryResult (one query profile per marker file).\<close>

definition good_reports :: "search \<Rightarrow> string list \<Rightarrow> string list \<Rightarrow> bool" where
  "good_reports search genomes markers \<longleftrightarrow>
     (\<forall>g\<in>set genomes. \<forall>m\<in>set markers.
        case search m g of
          None \<Rightarrow> True
        | Some r \<Rightarrow> (case searchio_parse r of Inl e \<Rightarrow> False | Inr qresults \<Rightarrow> length qresults \<le> 1))"

text \<open>A directory listing returns the entries of the directory, each once, in some order.\<close>

definition listing :: "(string list \<Rightarrow> string list) \<Rightarrow> bool" where
  "listing listdir \<longleftrightarrow> (\<forall>xs. mset (listdir xs) = mset xs)"

text \<open>The entries hmmsearch leaves in the directory of one genome.\<close>

definition dir_entries :: "search \<Rightarrow> string \<Rightarrow> string list \<Rightarrow> string list" where
  "dir_entries search genome markers =
     map (\<lambda>m. report_file (name_of genome) (col_prot m)) (filter (\<lambda>m. search m genome \<noteq> None) markers)"

text \<open>
  What lines 46 to 54 do with one file of the directory of \<open>genome\<close>, read off the
  file system: the marker of the file, the QueryResults of its report, the count stored
  for it (the loop over the QueryResults keeps the last one), and the
  \<^verbatim>\<open>genome_dict\<close> after a list of files.
\<close>

definition prot_of :: "string \<Rightarrow> string" where
  "prot_of file = (case file_prot file of Inl e \<Rightarrow> [] | Inr prot \<Rightarrow> prot)"

definition qresults_of :: "filesystem \<Rightarrow> string \<Rightarrow> string \<Rightarrow> (string \<times> string list) list" where
  "qresults_of fs genome file =
     (case map_of (fs_files fs) (result_path genome file) of
        None \<Rightarrow> []
      | Some r \<Rightarrow> (case searchio_parse r of Inl e \<Rightarrow> [] | Inr qresults \<Rightarrow> qresults))"

definition last_count :: "(string \<times> string list) list \<Rightarrow> int" where
  "last_count qresults = int (length (snd (last qresults)))"

definition genome_dict_of :: "filesystem \<Rightarrow> string \<Rightarrow> string list \<Rightarrow> (string \<times> int) list \<Rightarrow> (string \<times> int) list" where
  "genome_dict_of fs genome files d0 =
     fold (\<lambda>f d. if qresults_of fs genome f = [] then d
                  else AList.update (prot_of f) (last_count (qresults_of fs genome f)) d)
       files d0"

definition any_hits :: "filesystem \<Rightarrow> string \<Rightarrow> string list \<Rightarrow> bool" where
  "any_hits fs genome files \<longleftrightarrow> (\<exists>f\<in>set files. qresults_of fs genome f \<noteq> [])"

text \<open>A file of the directory of \<open>genome\<close> that lines 46 to 50 read without an error.\<close>

definition readable :: "filesystem \<Rightarrow> string \<Rightarrow> string \<Rightarrow> bool" where
  "readable fs genome file \<longleftrightarrow>
     file_genome file = Inr genome \<and> file_genome (basename file) = Inr genome \<and>
     (\<exists>prot. file_prot file = Inr prot) \<and>
     (\<exists>r qresults. map_of (fs_files fs) (result_path genome file) = Some r \<and>
        searchio_parse r = Inr qresults)"

text \<open>
  What the aggregation keeps true of its state: the keys of \<open>all_dicts\<close> are distinct,
  every reference points to a non-empty \<^verbatim>\<open>genome_dict\<close>, and every
  \<^verbatim>\<open>genome_dict\<close> has distinct keys and counts of at least one. \<open>good_dicts\<close> is
  the same for the dictionary of dictionaries that line 55 reads.
\<close>

definition agg_inv :: "agg \<Rightarrow> bool" where
  "agg_inv a \<longleftrightarrow>
     distinct (map fst (all_dicts a)) \<and>
     (\<forall>(k, r)\<in>set (all_dicts a). r < length (objs a) \<and> objs a ! r \<noteq> []) \<and>
     (\<forall>d\<in>set (objs a). distinct (map fst d) \<and> (\<forall>(p, v)\<in>set d. 1 \<le> v))"

definition good_dicts :: "(string \<times> (string \<times> int) list) list \<Rightarrow> bool" where
  "good_dicts dicts \<longleftrightarrow>
     distinct (map fst dicts) \<and>
     (\<forall>(g, d)\<in>set dicts. d \<noteq> [] \<and> distinct (map fst d) \<and> (\<forall>(p, v)\<in>set d. 1 \<le> v))"

section \<open>Facts about the string operations\<close>

lemma py_replace_Nil: "old \<noteq> [] \<Longrightarrow> py_replace old new [] = []"
  by (simp add: py_replace.simps)

lemma py_replace_Cons:
  "old \<noteq> [] \<Longrightarrow> py_replace old new (c # cs) =
     (if take (length old) (c # cs) = old then new @ py_replace old new (drop (length old) (c # cs))
      else c # py_replace old new cs)"
  by (subst py_replace.simps) simp

lemma py_replace_Cons_neq:
  "old \<noteq> [] \<Longrightarrow> take (length old) (c # cs) \<noteq> old \<Longrightarrow>
     py_replace old new (c # cs) = c # py_replace old new cs"
  by (simp add: py_replace_Cons)

lemma py_split_no_sep: "sep \<notin> set a \<Longrightarrow> py_split sep a = [a]"
  by (induction a) auto

lemma py_split_first: "sep \<notin> set a \<Longrightarrow> py_split sep (a @ sep # b) = a # py_split sep b"
  by (induction a) auto

lemma take_append_sep:
  assumes "c \<notin> set old"
  shows "take (length old) (a @ c # b) = old \<longleftrightarrow> take (length old) a = old"
proof (cases "length old \<le> length a")
  case True
  then show ?thesis by simp
next
  case False
  have "take (length old) (a @ c # b) \<noteq> old"
  proof
    assume e: "take (length old) (a @ c # b) = old"
    have "take (length old) (a @ c # b) ! length a = (a @ c # b) ! length a"
      using False by (intro nth_take) simp
    then have "take (length old) (a @ c # b) ! length a = c" by simp
    then have "old ! length a = c" using e by simp
    then show False using assms False by (metis nth_mem not_le)
  qed
  moreover have "take (length old) a \<noteq> old"
  proof
    assume "take (length old) a = old"
    then have "length (take (length old) a) = length old" by simp
    then show False using False by simp
  qed
  ultimately show ?thesis by simp
qed

lemma py_replace_sep:
  assumes "old \<noteq> []" "c \<notin> set old"
  shows "py_replace old [] (a @ c # b) = py_replace old [] a @ c # py_replace old [] b"
  using assms
proof (induction "length a" arbitrary: a rule: less_induct)
  case less
  show ?case
  proof (cases a)
    case Nil
    have "take (length old) (c # b) \<noteq> old"
      using less.prems by (cases old) auto
    then show ?thesis using Nil less.prems by (simp add: py_replace_Nil py_replace_Cons)
  next
    case (Cons x xs)
    show ?thesis
    proof (cases "take (length old) a = old")
      case True
      then have len: "length old \<le> length a"
        by (metis length_take min.cobounded2 min_def nat_le_linear take_all)
      have t: "take (length old) (a @ c # b) = old" using True len by simp
      have d: "drop (length old) (a @ c # b) = drop (length old) a @ c # b" using len by simp
      have "length (drop (length old) a) < length a" using less.prems(1) Cons by simp
      from less.hyps[OF this less.prems]
      show ?thesis using t d True Cons less.prems(1)
        by (simp add: py_replace_Cons)
    next
      case False
      then have f: "take (length old) (a @ c # b) \<noteq> old"
        using take_append_sep[OF less.prems(2)] by blast
      have "length xs < length a" using Cons by simp
      from less.hyps[OF this less.prems]
      show ?thesis using f False Cons less.prems(1)
        by (simp add: py_replace_Cons)
    qed
  qed
qed

lemma py_replace_out_suffix:
  "\<not> py_in ''.out'' prot \<Longrightarrow> py_replace ''.out'' [] (prot @ ''.out'') = prot"
proof (induction prot)
  case Nil
  show ?case by (simp add: py_replace_Cons py_replace_Nil)
next
  case (Cons c cs)
  then have a: "take 4 (c # cs) \<noteq> ''.out''" and b: "\<not> py_in ''.out'' cs"
    by (simp_all add: eval_nat_numeral)
  have "take 4 ((c # cs) @ ''.out'') \<noteq> ''.out''"
  proof (cases cs)
    case Nil then show ?thesis by simp
  next
    case (Cons d ds)
    note c1 = this
    show ?thesis
    proof (cases ds)
      case Nil then show ?thesis using c1 by simp
    next
      case (Cons e es)
      note c2 = this
      show ?thesis
      proof (cases es)
        case Nil then show ?thesis using c1 c2 by simp
      next
        case (Cons f fs)
        then show ?thesis using a c1 c2 by simp
      qed
    qed
  qed
  then have k: "take (length ''.out'') (c # (cs @ ''.out'')) \<noteq> ''.out''"
    by (simp add: eval_nat_numeral)
  have "py_replace ''.out'' [] (c # (cs @ ''.out'')) = c # py_replace ''.out'' [] (cs @ ''.out'')"
    by (rule py_replace_Cons_neq[OF _ k]) simp
  then show ?case using Cons.IH[OF b] by simp
qed

lemma set_py_replace: "old \<noteq> [] \<Longrightarrow> set (py_replace old [] s) \<subseteq> set s"
proof (induction "length s" arbitrary: s rule: less_induct)
  case less
  show ?case
  proof (cases s)
    case Nil then show ?thesis using less.prems by (simp add: py_replace_Nil)
  next
    case (Cons x xs)
    have "length (drop (length old) s) < length s" using less.prems Cons by simp
    from less.hyps[OF this less.prems] have 1: "set (py_replace old [] (drop (length old) s)) \<subseteq> set s"
      using set_drop_subset by fastforce
    have "length xs < length s" using Cons by simp
    from less.hyps[OF this less.prems] have 2: "set (py_replace old [] xs) \<subseteq> set xs" .
    show ?thesis using 1 2 Cons less.prems by (auto simp: py_replace_Cons)
  qed
qed

lemma file_genome_report_file:
  "CHR ''-'' \<notin> set name \<Longrightarrow> file_genome (report_file name prot) = Inr name"
  by (simp add: file_genome_def report_file_def py_split_first py_index_def)

lemma file_prot_report_file:
  assumes "CHR ''-'' \<notin> set name" "CHR ''-'' \<notin> set prot" "\<not> py_in ''.out'' prot"
  shows "file_prot (report_file name prot) = Inr prot"
proof -
  have r: "py_replace ''.out'' [] (name @ CHR ''-'' # prot @ ''.out'')
       = py_replace ''.out'' [] name @ CHR ''-'' # py_replace ''.out'' [] (prot @ ''.out'')"
    by (rule py_replace_sep) auto
  have n: "CHR ''-'' \<notin> set (py_replace ''.out'' [] name)"
    using set_py_replace[of "''.out''" name] assms(1) by auto
  show ?thesis
    using assms n by (simp add: file_prot_def report_file_def r py_replace_out_suffix
        py_split_first py_split_no_sep py_index_def)
qed

section \<open>The name of a report file, written and read back\<close>

text \<open>
  C10 (as amended). When neither identifier contains "-" and the marker identifier does
  not contain ".out", the parser's reconstruction from the file name (text before the
  first "-" as genome, text between the first and second "-" of the name without ".out"
  as marker) recovers the pair that produced the file, the reconstructed path is the path
  the orchestrator wrote, and opening it right after the search finds the report. For
  the genome identifier "a-b" the reconstructed path differs from the written one.
\<close>

theorem report_name_roundtrip:
  assumes "CHR ''-'' \<notin> set name" and "CHR ''-'' \<notin> set prot" and "\<not> py_in ''.out'' prot"
  shows "file_genome (report_file name prot) = Inr name \<and>
         file_prot (report_file name prot) = Inr prot \<and>
         result_path name (report_file name prot) = outname name prot \<and>
         map_of (fs_files (write_report name prot r fs)) (result_path name (report_file name prot))
           = Some r \<and>
         file_genome (report_file ''a-b'' ''m'') = Inr ''a'' \<and>
         result_path ''a'' (report_file ''a-b'' ''m'') \<noteq> outname ''a-b'' ''m''"
proof -
  have "file_genome (report_file ''a-b'' ''m'') = Inr ''a''"
    by (simp add: file_genome_def report_file_def py_index_def)
  moreover have "result_path ''a'' (report_file ''a-b'' ''m'') \<noteq> outname ''a-b'' ''m''"
    by (simp add: report_file_def result_path_def outname_def)
  moreover have "map_of (fs_files (write_report name prot r fs))
      (result_path name (report_file name prot)) = Some r"
    by (simp add: write_report_def result_path_def outname_def update_conv')
  ultimately show ?thesis
    using assms file_genome_report_file file_prot_report_file
    by (simp add: result_path_def outname_def)
qed

theorem report_name_roundtrip_witness:
  "CHR ''-'' \<notin> set ''g'' \<and> CHR ''-'' \<notin> set ''m'' \<and> \<not> py_in ''.out'' ''m'' \<and>
   file_genome (report_file ''g'' ''m'') = Inr ''g'' \<and>
   file_prot (report_file ''g'' ''m'') = Inr ''m'' \<and>
   result_path ''g'' (report_file ''g'' ''m'') = outname ''g'' ''m'' \<and>
   map_of (fs_files (write_report ''g'' ''m'' (Table []) empty_fs))
     (result_path ''g'' (report_file ''g'' ''m'')) = Some (Table [])"
proof -
  have a: "CHR ''-'' \<notin> set ''g''" and b: "CHR ''-'' \<notin> set ''m''" and c: "\<not> py_in ''.out'' ''m''"
    by simp_all
  show ?thesis
    using a b c report_name_roundtrip [OF a b c, where r = "Table []" and fs = empty_fs]
    by blast
qed

text \<open>
  C10 as stated fails: the marker file \<^verbatim>\<open>a.out.hmm\<close> gives the identifier "a.out", which
  has no "-", and line 47 reads the marker "a" back from the report's name.
\<close>

theorem report_name_roundtrip_counterexample:
  "marker_prot ''markers/a.out.hmm'' = Inr ''a.out'' \<and>
   genome_name ''genomes/g.faa'' = Inr ''g'' \<and>
   CHR ''-'' \<notin> set ''g'' \<and> CHR ''-'' \<notin> set ''a.out'' \<and>
   file_prot (report_file ''g'' ''a.out'') = Inr ''a'' \<and>
   file_prot (report_file ''g'' ''a.out'') \<noteq> Inr ''a.out''"
  by code_simp

section \<open>The searches leave the expected report directory\<close>

lemma map_entry_present:
  "map_of xs k = Some v \<Longrightarrow> AList.map_entry k f xs = AList.update k (f v) xs"
  by (induction xs) (auto split: if_splits)

lemma update_append_fresh:
  "k \<notin> fst ` set xs \<Longrightarrow> AList.update k v (xs @ [(k, w)]) = xs @ [(k, v)]"
  by (induction xs) auto

lemma map_of_append_fresh:
  "k \<notin> fst ` set xs \<Longrightarrow> map_of (xs @ [(k, w)]) k = Some w"
  by (induction xs) auto

lemma report_file_inj: "report_file n p = report_file n p' \<Longrightarrow> p = p'"
  by (simp add: report_file_def)

lemma outname_inj_prot: "outname n p = outname n p' \<Longrightarrow> p = p'"
  by (simp add: outname_def report_file_def)

lemma takeWhile_upto:
  "\<forall>x\<in>set a. P x \<Longrightarrow> \<not> P c \<Longrightarrow> takeWhile P (a @ c # b) = a"
  by (induction a) auto

lemma outname_inj:
  assumes "CHR ''-'' \<notin> set n" "CHR ''-'' \<notin> set n'" "outname n p = outname n' p'"
  shows "n = n' \<and> p = p'"
proof -
  have e: "(n @ CHR ''/'' # n) @ CHR ''-'' # (p @ ''.out'') = (n' @ CHR ''/'' # n') @ CHR ''-'' # (p' @ ''.out'')"
    using assms(3) by (simp add: outname_def report_file_def)
  have 1: "takeWhile (\<lambda>c. c \<noteq> CHR ''-'') ((n @ CHR ''/'' # n) @ CHR ''-'' # (p @ ''.out'')) = n @ CHR ''/'' # n"
    by (rule takeWhile_upto) (use assms(1) in auto)
  have 2: "takeWhile (\<lambda>c. c \<noteq> CHR ''-'') ((n' @ CHR ''/'' # n') @ CHR ''-'' # (p' @ ''.out'')) = n' @ CHR ''/'' # n'"
    by (rule takeWhile_upto) (use assms(2) in auto)
  from arg_cong[OF e, of "takeWhile (\<lambda>c. c \<noteq> CHR ''-'')"]
  have 3: "n @ CHR ''/'' # n = n' @ CHR ''/'' # n'" unfolding 1 2 .
  then have "length (n @ CHR ''/'' # n) = length (n' @ CHR ''/'' # n')" by simp
  then have "length n = length n'" by simp
  with 3 have "n = n'" by simp
  with assms(3) show ?thesis using outname_inj_prot by blast
qed

lemma search_markers_good:
  assumes "\<forall>m\<in>set ms. marker_prot m = Inr (col_prot m)"
    and "distinct (map col_prot ms)"
    and "map_of (fs_dirs fs) (name_of genome) = Some es"
    and "\<forall>m\<in>set ms. report_file (name_of genome) (col_prot m) \<notin> set es"
  shows "\<exists>fs'. search_markers search genome (name_of genome) ms fs = Inr fs' \<and>
      fs_dirs fs' = AList.update (name_of genome) (es @ dir_entries search genome ms) (fs_dirs fs) \<and>
      (\<forall>m\<in>set ms. map_of (fs_files fs') (outname (name_of genome) (col_prot m)) =
          (case search m genome of None \<Rightarrow> map_of (fs_files fs) (outname (name_of genome) (col_prot m))
            | Some r \<Rightarrow> Some r)) \<and>
      (\<forall>p. p \<notin> (\<lambda>m. outname (name_of genome) (col_prot m)) ` set ms \<longrightarrow>
          map_of (fs_files fs') p = map_of (fs_files fs) p)"
  using assms
proof (induction ms arbitrary: fs es)
  case Nil
  then show ?case by (simp add: dir_entries_def update_triv)
next
  case (Cons m ms)
  let ?n = "name_of genome"
  let ?f = "report_file ?n (col_prot m)"
  let ?fs1 = "case search m genome of None \<Rightarrow> fs | Some r \<Rightarrow> write_report ?n (col_prot m) r fs"
  let ?es1 = "case search m genome of None \<Rightarrow> es | Some r \<Rightarrow> es @ [?f]"
  have mp: "marker_prot m = Inr (col_prot m)" using Cons.prems(1) by simp
  have d1: "map_of (fs_dirs ?fs1) ?n = Some ?es1"
    using Cons.prems(3,4)
    by (auto simp: write_report_def map_entry_present update_conv' split: option.splits)
  have dirs1: "fs_dirs ?fs1 = AList.update ?n ?es1 (fs_dirs fs)"
    using Cons.prems(3,4)
    by (auto simp: write_report_def map_entry_present update_triv split: option.splits)
  have np: "col_prot m \<notin> col_prot ` set ms" using Cons.prems(2) by simp
  have fresh: "\<forall>m'\<in>set ms. report_file ?n (col_prot m') \<notin> set ?es1"
  proof
    fix m' assume m': "m' \<in> set ms"
    then have "col_prot m' \<noteq> col_prot m" using np by (metis imageI)
    then have "report_file ?n (col_prot m') \<noteq> ?f" using report_file_inj by blast
    then show "report_file ?n (col_prot m') \<notin> set ?es1"
      using Cons.prems(4) m' by (auto split: option.splits)
  qed
  from Cons.IH[of ?fs1 ?es1, OF _ _ d1 fresh] Cons.prems(1,2)
  obtain fs' where r: "search_markers search genome ?n ms ?fs1 = Inr fs'"
    and dr: "fs_dirs fs' = AList.update ?n (?es1 @ dir_entries search genome ms) (fs_dirs ?fs1)"
    and f1: "\<forall>m'\<in>set ms. map_of (fs_files fs') (outname ?n (col_prot m')) =
          (case search m' genome of None \<Rightarrow> map_of (fs_files ?fs1) (outname ?n (col_prot m'))
            | Some r \<Rightarrow> Some r)"
    and f2: "\<forall>p. p \<notin> (\<lambda>m. outname ?n (col_prot m)) ` set ms \<longrightarrow>
          map_of (fs_files fs') p = map_of (fs_files ?fs1) p"
    by auto
  have run: "search_markers search genome ?n (m # ms) fs = Inr fs'"
    using r mp by simp
  have e: "?es1 @ dir_entries search genome ms = es @ dir_entries search genome (m # ms)"
    by (auto simp: dir_entries_def split: option.splits)
  have dirs: "fs_dirs fs' = AList.update ?n (es @ dir_entries search genome (m # ms)) (fs_dirs fs)"
    using dr dirs1 e by simp
  have notin: "outname ?n (col_prot m) \<notin> (\<lambda>m. outname ?n (col_prot m)) ` set ms"
  proof
    assume "outname ?n (col_prot m) \<in> (\<lambda>m. outname ?n (col_prot m)) ` set ms"
    then obtain m' where "m' \<in> set ms" "outname ?n (col_prot m) = outname ?n (col_prot m')"
      by auto
    then show False using np outname_inj_prot by (metis imageI)
  qed
  have files1: "\<And>p. map_of (fs_files ?fs1) p =
      (case search m genome of None \<Rightarrow> map_of (fs_files fs) p
        | Some r \<Rightarrow> if p = outname ?n (col_prot m) then Some r else map_of (fs_files fs) p)"
    by (auto simp: write_report_def update_conv' split: option.splits)
  have F1: "\<forall>m'\<in>set (m # ms). map_of (fs_files fs') (outname ?n (col_prot m')) =
          (case search m' genome of None \<Rightarrow> map_of (fs_files fs) (outname ?n (col_prot m'))
            | Some r \<Rightarrow> Some r)"
  proof
    fix m' assume "m' \<in> set (m # ms)"
    then consider "m' = m" | "m' \<in> set ms" "col_prot m' \<noteq> col_prot m"
      using np by (metis imageI set_ConsD)
    then show "map_of (fs_files fs') (outname ?n (col_prot m')) =
          (case search m' genome of None \<Rightarrow> map_of (fs_files fs) (outname ?n (col_prot m'))
            | Some r \<Rightarrow> Some r)"
    proof cases
      case 1
      then show ?thesis using f2 notin files1 by (auto split: option.splits)
    next
      case 2
      then have "outname ?n (col_prot m') \<noteq> outname ?n (col_prot m)"
        using outname_inj_prot by blast
      then show ?thesis using f1 2(1) files1 by (auto split: option.splits)
    qed
  qed
  have F2: "\<forall>p. p \<notin> (\<lambda>m. outname ?n (col_prot m)) ` set (m # ms) \<longrightarrow>
          map_of (fs_files fs') p = map_of (fs_files fs) p"
    using f2 files1 by (auto split: option.splits)
  show ?case using run dirs F1 F2 by blast
qed


lemma run_hmms_good:
  assumes "\<forall>g\<in>set gs. genome_name g = Inr (name_of g) \<and> CHR ''-'' \<notin> set (name_of g) \<and>
              name_of g \<noteq> ''.'' \<and> name_of g \<noteq> ''..''"
    and "distinct (map name_of gs)"
    and "\<forall>g\<in>set gs. name_of g \<notin> fst ` set (fs_dirs fs)"
    and "\<forall>m\<in>set ms. marker_prot m = Inr (col_prot m)"
    and "distinct (map col_prot ms)"
  shows "\<exists>fs'. run_hmms search gs ms fs = Inr fs' \<and>
      fs_dirs fs' = fs_dirs fs @ map (\<lambda>g. (name_of g, dir_entries search g ms)) gs \<and>
      (\<forall>g\<in>set gs. \<forall>m\<in>set ms. map_of (fs_files fs') (outname (name_of g) (col_prot m)) =
          (case search m g of None \<Rightarrow> map_of (fs_files fs) (outname (name_of g) (col_prot m))
            | Some r \<Rightarrow> Some r)) \<and>
      (\<forall>p. (\<forall>g\<in>set gs. \<forall>m\<in>set ms. p \<noteq> outname (name_of g) (col_prot m)) \<longrightarrow>
          map_of (fs_files fs') p = map_of (fs_files fs) p)"
  using assms
proof (induction gs arbitrary: fs)
  case Nil
  then show ?case by simp
next
  case (Cons g gs)
  let ?n = "name_of g"
  let ?fs1 = "fs\<lparr>fs_dirs := fs_dirs fs @ [(?n, [])]\<rparr>"
  have gn: "genome_name g = Inr ?n" and nd: "CHR ''-'' \<notin> set ?n"
    and dots: "?n \<noteq> ''.''" "?n \<noteq> ''..''"
    using Cons.prems(1) by simp_all
  have nf: "?n \<notin> fst ` set (fs_dirs fs)" using Cons.prems(3) by simp
  have mk: "mkdir ?n fs = Inr ?fs1" using nf dots by (simp add: mkdir_def)
  have "map_of (fs_dirs fs) ?n = None" using nf by (simp add: map_of_eq_None_iff)
  then have d1: "map_of (fs_dirs ?fs1) ?n = Some []" by (simp add: map_add_def)
  from search_markers_good[OF Cons.prems(4,5) d1, of search]
  obtain fs2 where sm: "search_markers search g ?n ms ?fs1 = Inr fs2"
    and dr2: "fs_dirs fs2 = AList.update ?n ([] @ dir_entries search g ms) (fs_dirs ?fs1)"
    and f1: "\<forall>m\<in>set ms. map_of (fs_files fs2) (outname ?n (col_prot m)) =
          (case search m g of None \<Rightarrow> map_of (fs_files ?fs1) (outname ?n (col_prot m))
            | Some r \<Rightarrow> Some r)"
    and f2: "\<forall>p. p \<notin> (\<lambda>m. outname ?n (col_prot m)) ` set ms \<longrightarrow>
          map_of (fs_files fs2) p = map_of (fs_files ?fs1) p"
    by auto
  have dirs2: "fs_dirs fs2 = fs_dirs fs @ [(?n, dir_entries search g ms)]"
    using dr2 nf by (simp add: update_append_fresh)
  have nn: "?n \<notin> name_of ` set gs" using Cons.prems(2) by simp
  have p1: "\<forall>g\<in>set gs. genome_name g = Inr (name_of g) \<and> CHR ''-'' \<notin> set (name_of g) \<and>
              name_of g \<noteq> ''.'' \<and> name_of g \<noteq> ''..''"
    using Cons.prems(1) by simp
  have p2: "distinct (map name_of gs)" using Cons.prems(2) by simp
  have p3: "\<forall>g'\<in>set gs. name_of g' \<notin> fst ` set (fs_dirs fs2)"
  proof
    fix g' assume g': "g' \<in> set gs"
    then have "name_of g' \<noteq> ?n" using nn by (metis imageI)
    moreover have "name_of g' \<notin> fst ` set (fs_dirs fs)" using Cons.prems(3) g' by simp
    ultimately show "name_of g' \<notin> fst ` set (fs_dirs fs2)" using dirs2 by auto
  qed
  from Cons.IH[OF p1 p2 p3 Cons.prems(4,5)]
  obtain fs' where rn: "run_hmms search gs ms fs2 = Inr fs'"
    and dr: "fs_dirs fs' = fs_dirs fs2 @ map (\<lambda>g. (name_of g, dir_entries search g ms)) gs"
    and g1: "\<forall>g\<in>set gs. \<forall>m\<in>set ms. map_of (fs_files fs') (outname (name_of g) (col_prot m)) =
          (case search m g of None \<Rightarrow> map_of (fs_files fs2) (outname (name_of g) (col_prot m))
            | Some r \<Rightarrow> Some r)"
    and g2: "\<forall>p. (\<forall>g\<in>set gs. \<forall>m\<in>set ms. p \<noteq> outname (name_of g) (col_prot m)) \<longrightarrow>
          map_of (fs_files fs') p = map_of (fs_files fs2) p"
    by blast
  have run: "run_hmms search (g # gs) ms fs = Inr fs'"
    using gn mk sm rn by simp
  have dirs: "fs_dirs fs' = fs_dirs fs @ map (\<lambda>g. (name_of g, dir_entries search g ms)) (g # gs)"
    using dr dirs2 by simp
  have other: "outname (name_of g') p' \<noteq> outname ?n p" if "g' \<in> set gs" for g' p p'
  proof -
    have "name_of g' \<noteq> ?n" using nn that by (metis imageI)
    moreover have "CHR ''-'' \<notin> set (name_of g')" using p1 that by simp
    ultimately show ?thesis using outname_inj[OF _ nd] by blast
  qed
  have G1: "\<forall>g'\<in>set (g # gs). \<forall>m\<in>set ms.
        map_of (fs_files fs') (outname (name_of g') (col_prot m)) =
          (case search m g' of None \<Rightarrow> map_of (fs_files fs) (outname (name_of g') (col_prot m))
            | Some r \<Rightarrow> Some r)"
  proof (intro ballI)
    fix g' m assume "g' \<in> set (g # gs)" and m: "m \<in> set ms"
    then consider "g' = g" | "g' \<in> set gs" by auto
    then show "map_of (fs_files fs') (outname (name_of g') (col_prot m)) =
          (case search m g' of None \<Rightarrow> map_of (fs_files fs) (outname (name_of g') (col_prot m))
            | Some r \<Rightarrow> Some r)"
    proof cases
      case 1
      have "\<forall>g''\<in>set gs. \<forall>m'\<in>set ms. outname ?n (col_prot m) \<noteq> outname (name_of g'') (col_prot m')"
        using other by metis
      then have "map_of (fs_files fs') (outname ?n (col_prot m)) = map_of (fs_files fs2) (outname ?n (col_prot m))"
        using g2 by blast
      then show ?thesis using 1 f1 m by (simp split: option.splits)
    next
      case 2
      have "outname (name_of g') (col_prot m) \<notin> (\<lambda>m. outname ?n (col_prot m)) ` set ms"
        using other[OF 2] by auto
      then have "map_of (fs_files fs2) (outname (name_of g') (col_prot m))
          = map_of (fs_files fs) (outname (name_of g') (col_prot m))"
        using f2 by simp
      then show ?thesis using g1 2 m by (simp split: option.splits)
    qed
  qed
  have G2: "\<forall>p. (\<forall>g\<in>set (g # gs). \<forall>m\<in>set ms. p \<noteq> outname (name_of g) (col_prot m)) \<longrightarrow>
          map_of (fs_files fs') p = map_of (fs_files fs) p"
  proof (intro allI impI)
    fix p assume a: "\<forall>g\<in>set (g # gs). \<forall>m\<in>set ms. p \<noteq> outname (name_of g) (col_prot m)"
    then have "map_of (fs_files fs') p = map_of (fs_files fs2) p" using g2 by simp
    moreover have "p \<notin> (\<lambda>m. outname ?n (col_prot m)) ` set ms" using a by auto
    ultimately show "map_of (fs_files fs') p = map_of (fs_files fs) p" using f2 by simp
  qed
  show ?case using run dirs G1 G2 by blast
qed

section \<open>The aggregation read off the report directory\<close>

lemma group_rows_Nil_iff: "group_rows rs = [] \<longleftrightarrow> rs = []"
  by (induction rs rule: group_rows.induct) (auto split: list.splits)

lemma group_rows_total: "sum_list (map (\<lambda>(q, ts). length ts) (group_rows rs)) = length rs"
  by (induction rs rule: group_rows.induct) (auto split: list.splits)

lemma group_rows_nonempty: "(q, ts) \<in> set (group_rows rs) \<Longrightarrow> ts \<noteq> []"
  by (induction rs arbitrary: q ts rule: group_rows.induct) (auto split: list.splits if_splits)

lemma update_fresh: "k \<notin> fst ` set al \<Longrightarrow> AList.update k v al = al @ [(k, v)]"
  by (induction al) auto

lemma record_hits_eq:
  assumes "ref < length (objs a)" and "file_genome (basename file) = Inr key"
  shows "record_hits ref prot file qs a =
     Inr (if qs = [] then a
          else a\<lparr>objs := (objs a)[ref := AList.update prot (last_count qs) (objs a ! ref)],
                 all_dicts := AList.update key ref (all_dicts a)\<rparr>)"
  using assms
proof (induction qs arbitrary: a)
  case Nil
  then show ?case by simp
next
  case (Cons x qs)
  obtain q hits where x: "x = (q, hits)" by (cases x)
  let ?a2 = "a\<lparr>objs := (objs a)[ref := AList.update prot (int (length hits)) (objs a ! ref)],
                all_dicts := AList.update key ref (all_dicts a)\<rparr>"
  have l: "ref < length (objs ?a2)" using Cons.prems(1) by simp
  have step: "record_hits ref prot file (x # qs) a = record_hits ref prot file qs ?a2"
    using x Cons.prems(2) by (simp add: Let_def)
  show ?case
  proof (cases "qs = []")
    case True
    then show ?thesis using step x by (simp add: last_count_def)
  next
    case False
    then show ?thesis
      using step Cons.IH[OF l Cons.prems(2)] Cons.prems(1)
      by (simp add: last_count_def)
  qed
qed

lemma parse_files_good:
  assumes "ref < length (objs a)" and "\<forall>f\<in>set L. readable fs n f"
  shows "parse_files fs ref L a =
     Inr (a\<lparr>objs := (objs a)[ref := genome_dict_of fs n L (objs a ! ref)],
            all_dicts := (if any_hits fs n L then AList.update n ref (all_dicts a) else all_dicts a)\<rparr>)"
  using assms
proof (induction L arbitrary: a)
  case Nil
  then show ?case by (simp add: genome_dict_of_def any_hits_def)
next
  case (Cons f L)
  from Cons.prems(2) have rd: "readable fs n f" by simp
  then obtain p r qs where fg: "file_genome f = Inr n" and fb: "file_genome (basename f) = Inr n"
    and fp: "file_prot f = Inr p" and lk: "map_of (fs_files fs) (result_path n f) = Some r"
    and sp: "searchio_parse r = Inr qs"
    by (auto simp: readable_def)
  have po: "prot_of f = p" using fp by (simp add: prot_of_def)
  have qo: "qresults_of fs n f = qs" using lk sp by (simp add: qresults_of_def)
  let ?a1 = "if qs = [] then a
          else a\<lparr>objs := (objs a)[ref := AList.update p (last_count qs) (objs a ! ref)],
                 all_dicts := AList.update n ref (all_dicts a)\<rparr>"
  have rh: "record_hits ref p f qs a = Inr ?a1"
    by (rule record_hits_eq[OF Cons.prems(1) fb])
  have l1: "ref < length (objs ?a1)" using Cons.prems(1) by simp
  have r1: "\<forall>f\<in>set L. readable fs n f" using Cons.prems(2) by simp
  have step: "parse_files fs ref (f # L) a = parse_files fs ref L ?a1"
    using fg fp lk sp rh by simp
  show ?case
  proof (cases "qs = []")
    case True
    then show ?thesis
      using step Cons.IH[OF l1 r1] po qo by (simp add: genome_dict_of_def any_hits_def)
  next
    case False
    then show ?thesis
      using step Cons.IH[OF l1 r1] po qo Cons.prems(1)
      by (simp add: genome_dict_of_def any_hits_def)
  qed
qed

lemma deref_append:
  assumes "\<forall>(k, r)\<in>set al. r < length xs"
  shows "map (\<lambda>(k, r). (k, (xs @ ys) ! r)) al = map (\<lambda>(k, r). (k, xs ! r)) al"
  using assms by (induction al) (auto simp: nth_append)

lemma parse_dirs_good:
  assumes "\<forall>(n, L)\<in>set ds. \<forall>f\<in>set L. readable fs n f"
    and "distinct (map fst ds)"
    and "\<forall>(n, L)\<in>set ds. n \<notin> fst ` set (all_dicts a)"
    and "\<forall>(k, r)\<in>set (all_dicts a). r < length (objs a)"
  shows "\<exists>a'. parse_dirs fs (map snd ds) a = Inr a' \<and>
      (\<forall>(k, r)\<in>set (all_dicts a'). r < length (objs a')) \<and>
      deref a' = deref a @ map (\<lambda>(n, L). (n, genome_dict_of fs n L []))
                              (filter (\<lambda>(n, L). any_hits fs n L) ds)"
  using assms
proof (induction ds arbitrary: a)
  case Nil
  then show ?case by simp
next
  case (Cons d ds)
  obtain n L where d: "d = (n, L)" by (cases d)
  let ?ref = "length (objs a)"
  let ?a0 = "a\<lparr>objs := objs a @ [[]]\<rparr>"
  let ?D = "genome_dict_of fs n L []"
  let ?al = "if any_hits fs n L then AList.update n ?ref (all_dicts a) else all_dicts a"
  let ?a1 = "\<lparr>all_dicts = ?al, objs = objs a @ [?D]\<rparr>"
  have rd: "\<forall>f\<in>set L. readable fs n f" using Cons.prems(1) d by simp
  have pf: "parse_files fs ?ref L ?a0 = Inr ?a1"
    using parse_files_good[of ?ref ?a0 L fs n] rd by simp
  have nk: "n \<notin> fst ` set (all_dicts a)" using Cons.prems(3) d by simp
  have al: "?al = all_dicts a @ (if any_hits fs n L then [(n, ?ref)] else [])"
    using nk by (simp add: update_fresh)
  have i1: "\<forall>(k, r)\<in>set (all_dicts ?a1). r < length (objs ?a1)"
    using Cons.prems(4) al by (auto split: if_splits)
  have old: "map (\<lambda>(k, r). (k, (objs a @ [?D]) ! r)) (all_dicts a) = deref a"
    using deref_append[OF Cons.prems(4), of "[?D]"] by (simp add: deref_def)
  have d1: "deref ?a1 = deref a @ (if any_hits fs n L then [(n, ?D)] else [])"
    using old al by (simp add: deref_def)
  have p1: "\<forall>(n, L)\<in>set ds. \<forall>f\<in>set L. readable fs n f" using Cons.prems(1) by simp
  have p2: "distinct (map fst ds)" using Cons.prems(2) by simp
  have nn: "n \<notin> fst ` set ds" using Cons.prems(2) d by simp
  have p3: "\<forall>(n', L')\<in>set ds. n' \<notin> fst ` set (all_dicts ?a1)"
  proof -
    have sub: "fst ` set (all_dicts ?a1) \<subseteq> insert n (fst ` set (all_dicts a))"
      using al by (auto split: if_splits)
    have "n' \<notin> fst ` set (all_dicts ?a1)" if m: "(n', L') \<in> set ds" for n' L'
    proof -
      have "n' \<noteq> n" using nn m by (metis fst_conv imageI)
      moreover have "n' \<notin> fst ` set (all_dicts a)" using Cons.prems(3) m by auto
      ultimately show ?thesis using sub by blast
    qed
    then show ?thesis by blast
  qed
  from Cons.IH[OF p1 p2 p3 i1]
  obtain a' where r: "parse_dirs fs (map snd ds) ?a1 = Inr a'"
    and i': "\<forall>(k, r)\<in>set (all_dicts a'). r < length (objs a')"
    and d': "deref a' = deref ?a1 @ map (\<lambda>(n, L). (n, genome_dict_of fs n L []))
                              (filter (\<lambda>(n, L). any_hits fs n L) ds)"
    by blast
  have run: "parse_dirs fs (map snd (d # ds)) a = Inr a'"
    using pf r d by simp
  have "deref a' = deref a @ map (\<lambda>(n, L). (n, genome_dict_of fs n L []))
                              (filter (\<lambda>(n, L). any_hits fs n L) (d # ds))"
    using d' d1 d by simp
  then show ?case using run i' by blast
qed

lemma basename_no_slash: "CHR ''/'' \<notin> set (basename p)"
  by (auto simp: basename_def dest: set_takeWhileD)

lemma basename_id: "CHR ''/'' \<notin> set f \<Longrightarrow> basename f = f"
proof -
  assume a: "CHR ''/'' \<notin> set f"
  have t: "takeWhile (\<lambda>c. c \<noteq> CHR ''/'') (rev f) = rev f"
    by (rule takeWhile_eq_all_conv[THEN iffD2]) (use a in auto)
  show ?thesis unfolding basename_def t by simp
qed

lemma set_py_strip: "set (py_strip s) \<subseteq> set s"
  by (auto simp: py_strip_def dest!: set_dropWhileD)

lemma first_line_subset: "first_line s = Inr n \<Longrightarrow> set n \<subseteq> set s"
  by (auto simp: first_line_def split: if_splits dest: set_takeWhileD)

lemma genome_name_no_slash: "genome_name g = Inr n \<Longrightarrow> CHR ''/'' \<notin> set n"
proof -
  assume a: "genome_name g = Inr n"
  have "set n \<subseteq> set (py_strip (py_replace ''.faa'' [] (basename g)))"
    using a first_line_subset by (simp add: genome_name_def)
  also have "\<dots> \<subseteq> set (py_replace ''.faa'' [] (basename g))" by (rule set_py_strip)
  also have "\<dots> \<subseteq> set (basename g)" by (rule set_py_replace) simp
  finally show ?thesis using basename_no_slash by blast
qed

lemma col_prot_no_slash: "CHR ''/'' \<notin> set (col_prot m)"
proof -
  have "set (col_prot m) \<subseteq> set (basename m)"
    unfolding col_prot_def by (rule set_py_replace) simp
  then show ?thesis using basename_no_slash by blast
qed

lemma readable_report_file:
  assumes "CHR ''-'' \<notin> set n" "CHR ''/'' \<notin> set n"
    and "CHR ''-'' \<notin> set p" "\<not> py_in ''.out'' p" "CHR ''/'' \<notin> set p"
    and "map_of (fs_files fs) (outname n p) = Some r" "searchio_parse r = Inr qs"
  shows "readable fs n (report_file n p) \<and> prot_of (report_file n p) = p \<and>
         qresults_of fs n (report_file n p) = qs"
proof -
  have "CHR ''/'' \<notin> set (report_file n p)" using assms(2,5) by (simp add: report_file_def)
  then have b: "basename (report_file n p) = report_file n p" by (rule basename_id)
  have g: "file_genome (report_file n p) = Inr n" using assms(1) by (rule file_genome_report_file)
  have fp: "file_prot (report_file n p) = Inr p" using assms(1,3,4) by (rule file_prot_report_file)
  have rp: "result_path n (report_file n p) = outname n p"
    by (simp add: result_path_def outname_def)
  show ?thesis using b g fp rp assms(6,7)
    by (simp add: readable_def prot_of_def qresults_of_def)
qed

lemma genome_dict_of_snoc:
  "genome_dict_of fs n (L @ [f]) d0 =
     (if qresults_of fs n f = [] then genome_dict_of fs n L d0
      else AList.update (prot_of f) (last_count (qresults_of fs n f)) (genome_dict_of fs n L d0))"
  by (simp add: genome_dict_of_def)

lemma genome_dict_of_map_of:
  "map_of (genome_dict_of fs n L d0) p =
     (case filter (\<lambda>f. prot_of f = p \<and> qresults_of fs n f \<noteq> []) L of
        [] \<Rightarrow> map_of d0 p
      | f # fs' \<Rightarrow> Some (last_count (qresults_of fs n (last (f # fs')))))"
proof (induction L rule: rev_induct)
  case Nil
  then show ?case by (simp add: genome_dict_of_def)
next
  case (snoc f L)
  show ?case
    unfolding genome_dict_of_snoc using snoc
    by (auto simp: update_conv' split: list.splits)
qed

lemma genome_dict_of_keys:
  "fst ` set (genome_dict_of fs n L d0) =
     fst ` set d0 \<union> prot_of ` {f \<in> set L. qresults_of fs n f \<noteq> []}"
proof (induction L rule: rev_induct)
  case Nil
  then show ?case by (simp add: genome_dict_of_def)
next
  case (snoc f L)
  show ?case
    unfolding genome_dict_of_snoc using snoc
    by (auto simp: dom_update)
qed

lemma genome_dict_of_distinct:
  "distinct (map fst d0) \<Longrightarrow> distinct (map fst (genome_dict_of fs n L d0))"
proof (induction L rule: rev_induct)
  case Nil
  then show ?case by (simp add: genome_dict_of_def)
next
  case (snoc f L)
  then show ?case
    unfolding genome_dict_of_snoc by (simp add: distinct_update)
qed

lemma genome_dict_of_hit:
  assumes "f \<in> set L" "inj_on prot_of (set L)" "qresults_of fs n f \<noteq> []"
  shows "map_of (genome_dict_of fs n L d0) (prot_of f) = Some (last_count (qresults_of fs n f))"
proof -
  let ?F = "filter (\<lambda>f'. prot_of f' = prot_of f \<and> qresults_of fs n f' \<noteq> []) L"
  have "f \<in> set ?F" using assms(1,3) by simp
  then have ne: "?F \<noteq> []" by (metis empty_iff empty_set)
  then have "last ?F \<in> set ?F" by (rule last_in_set)
  then have "last ?F \<in> set L" "prot_of (last ?F) = prot_of f" by auto
  then have lf: "last ?F = f" using assms(1,2) by (auto dest: inj_onD)
  obtain x xs where e: "?F = x # xs" using ne by (cases ?F) auto
  have l: "last (x # xs) = f" using lf e by simp
  show ?thesis by (simp only: genome_dict_of_map_of e list.case l)
qed

lemma genome_dict_of_miss:
  assumes "\<forall>f\<in>set L. prot_of f = p \<longrightarrow> qresults_of fs n f = []"
  shows "map_of (genome_dict_of fs n L d0) p = map_of d0 p"
proof -
  have "filter (\<lambda>f. prot_of f = p \<and> qresults_of fs n f \<noteq> []) L = []"
    using assms by (auto simp: filter_empty_conv)
  then show ?thesis by (simp add: genome_dict_of_map_of)
qed

lemma good_report_counts:
  assumes "searchio_parse r = Inr qs" "length qs \<le> 1"
  shows "(qs = [] \<longrightarrow> hit_count (Some r) = 0) \<and>
         (qs \<noteq> [] \<longrightarrow> last_count qs = hit_count (Some r) \<and> 0 < hit_count (Some r))"
proof -
  from assms(1) obtain rs where r: "r = Table rs" and qs: "qs = group_rows rs"
    by (cases r) (auto simp: searchio_parse_def split: if_splits)
  show ?thesis
  proof (cases qs)
    case Nil
    then have "rs = []" using qs group_rows_Nil_iff by metis
    then show ?thesis using Nil r by (simp add: hit_count_def)
  next
    case (Cons x xs)
    then have xs: "xs = []" using assms(2) by simp
    obtain q ts where x: "x = (q, ts)" by (cases x)
    have g: "group_rows rs = [(q, ts)]" using Cons xs x qs by simp
    have "sum_list (map (\<lambda>(q, ts). length ts) (group_rows rs)) = length rs"
      by (rule group_rows_total)
    then have l: "length ts = length rs" using g by simp
    have "(q, ts) \<in> set (group_rows rs)" using g by simp
    then have "ts \<noteq> []" by (rule group_rows_nonempty)
    then have "rs \<noteq> []" using l by (metis length_0_conv)
    then show ?thesis using Cons xs x l r by (simp add: hit_count_def last_count_def)
  qed
qed

lemma dir_facts:
  assumes gm: "good_markers ms"
    and gr: "good_reports search gs ms"
    and g: "g \<in> set gs"
    and nd: "CHR ''-'' \<notin> set (name_of g)" and ns: "CHR ''/'' \<notin> set (name_of g)"
    and files: "\<forall>m\<in>set ms. map_of (fs_files fs) (outname (name_of g) (col_prot m)) = search m g"
    and L: "set L = set (dir_entries search g ms)"
  shows "(\<forall>f\<in>set L. readable fs (name_of g) f) \<and>
         (\<forall>m\<in>set ms. map_of (genome_dict_of fs (name_of g) L []) (col_prot m) =
            (if 0 < hit_count (search m g) then Some (hit_count (search m g)) else None)) \<and>
         (any_hits fs (name_of g) L \<longleftrightarrow> (\<exists>m\<in>set ms. 0 < hit_count (search m g))) \<and>
         fst ` set (genome_dict_of fs (name_of g) L []) \<subseteq> col_prot ` set ms"
proof -
  let ?n = "name_of g"
  have mk: "\<And>m. m \<in> set ms \<Longrightarrow> CHR ''-'' \<notin> set (col_prot m) \<and> \<not> py_in ''.out'' (col_prot m)"
    using gm by (simp add: good_markers_def)
  have inj: "inj_on col_prot (set ms)"
    using gm by (simp add: good_markers_def distinct_map)
  have mem: "f \<in> set L \<longleftrightarrow> (\<exists>m\<in>set ms. search m g \<noteq> None \<and> f = report_file ?n (col_prot m))" for f
    using L by (auto simp: dir_entries_def)
  have parsed: "\<exists>qs. searchio_parse r = Inr qs \<and> length qs \<le> 1"
    if "m \<in> set ms" "search m g = Some r" for m r
  proof -
    have "case search m g of None \<Rightarrow> True
      | Some r \<Rightarrow> (case searchio_parse r of Inl e \<Rightarrow> False | Inr qs \<Rightarrow> length qs \<le> 1)"
      using gr g that(1) unfolding good_reports_def by blast
    then show ?thesis using that(2) by (cases "searchio_parse r") auto
  qed
  have rfile: "readable fs ?n (report_file ?n (col_prot m)) \<and>
      prot_of (report_file ?n (col_prot m)) = col_prot m \<and>
      qresults_of fs ?n (report_file ?n (col_prot m)) = qs"
    if "m \<in> set ms" "search m g = Some r" "searchio_parse r = Inr qs" for m r qs
  proof (rule readable_report_file[OF nd ns])
    show "CHR ''-'' \<notin> set (col_prot m)" "\<not> py_in ''.out'' (col_prot m)" using mk that(1) by auto
    show "CHR ''/'' \<notin> set (col_prot m)" by (rule col_prot_no_slash)
    show "map_of (fs_files fs) (outname ?n (col_prot m)) = Some r" using files that(1,2) by simp
    show "searchio_parse r = Inr qs" by (rule that(3))
  qed
  have rd: "\<forall>f\<in>set L. readable fs ?n f"
  proof
    fix f assume "f \<in> set L"
    then obtain m where m: "m \<in> set ms" "search m g \<noteq> None" "f = report_file ?n (col_prot m)"
      using mem by blast
    then obtain r where r: "search m g = Some r" by auto
    from parsed[OF m(1) r] obtain qs where "searchio_parse r = Inr qs" by blast
    from rfile[OF m(1) r this] show "readable fs ?n f" using m(3) by simp
  qed
  have pinj: "inj_on prot_of (set L)"
  proof (rule inj_onI)
    fix f f' assume a: "f \<in> set L" "f' \<in> set L" "prot_of f = prot_of f'"
    from a(1) obtain m r where m: "m \<in> set ms" "search m g = Some r" "f = report_file ?n (col_prot m)"
      using mem by auto
    from a(2) obtain m' r' where m': "m' \<in> set ms" "search m' g = Some r'" "f' = report_file ?n (col_prot m')"
      using mem by auto
    from parsed[OF m(1,2)] obtain qs where q: "searchio_parse r = Inr qs" by blast
    from parsed[OF m'(1,2)] obtain qs' where q': "searchio_parse r' = Inr qs'" by blast
    have "prot_of f = col_prot m" using rfile[OF m(1,2) q] m(3) by simp
    moreover have "prot_of f' = col_prot m'" using rfile[OF m'(1,2) q'] m'(3) by simp
    ultimately have "col_prot m = col_prot m'" using a(3) by simp
    then show "f = f'" using m(3) m'(3) by simp
  qed
  have prot_in: "\<exists>m\<in>set ms. f = report_file ?n (col_prot m) \<and> prot_of f = col_prot m \<and>
      (\<exists>r qs. search m g = Some r \<and> searchio_parse r = Inr qs \<and> length qs \<le> 1 \<and>
          qresults_of fs ?n f = qs)" if "f \<in> set L" for f
  proof -
    from that obtain m r where m: "m \<in> set ms" "search m g = Some r" "f = report_file ?n (col_prot m)"
      using mem by auto
    from parsed[OF m(1,2)] obtain qs where q: "searchio_parse r = Inr qs" "length qs \<le> 1" by blast
    show ?thesis using rfile[OF m(1,2) q(1)] m q by blast
  qed
  have look: "map_of (genome_dict_of fs ?n L []) (col_prot m) =
            (if 0 < hit_count (search m g) then Some (hit_count (search m g)) else None)"
    if m: "m \<in> set ms" for m
  proof (cases "search m g")
    case None
    have "\<forall>f\<in>set L. prot_of f = col_prot m \<longrightarrow> qresults_of fs ?n f = []"
    proof (intro ballI impI)
      fix f assume f: "f \<in> set L" "prot_of f = col_prot m"
      from prot_in[OF f(1)] obtain m' where m': "m' \<in> set ms" "prot_of f = col_prot m'"
        "search m' g \<noteq> None" by auto
      then have "m' = m" using inj m f(2) by (metis inj_onD)
      then show "qresults_of fs ?n f = []" using m'(3) None by simp
    qed
    then have "map_of (genome_dict_of fs ?n L []) (col_prot m) = map_of [] (col_prot m)"
      by (rule genome_dict_of_miss)
    then show ?thesis using None by (simp add: hit_count_def)
  next
    case (Some r)
    from parsed[OF m Some] obtain qs where q: "searchio_parse r = Inr qs" "length qs \<le> 1" by blast
    let ?f = "report_file ?n (col_prot m)"
    have fl: "?f \<in> set L" using mem m Some by auto
    have pf: "prot_of ?f = col_prot m" and qf: "qresults_of fs ?n ?f = qs"
      using rfile[OF m Some q(1)] by simp_all
    show ?thesis
    proof (cases "qs = []")
      case True
      have "\<forall>f\<in>set L. prot_of f = col_prot m \<longrightarrow> qresults_of fs ?n f = []"
      proof (intro ballI impI)
        fix f assume f: "f \<in> set L" "prot_of f = col_prot m"
        then have "f = ?f" using pinj fl pf by (metis inj_onD)
        then show "qresults_of fs ?n f = []" using qf True by simp
      qed
      then have "map_of (genome_dict_of fs ?n L []) (col_prot m) = map_of [] (col_prot m)"
        by (rule genome_dict_of_miss)
      then show ?thesis using good_report_counts[OF q] True Some by simp
    next
      case False
      have "map_of (genome_dict_of fs ?n L []) (prot_of ?f) = Some (last_count (qresults_of fs ?n ?f))"
        by (rule genome_dict_of_hit[OF fl pinj]) (use qf False in simp)
      then show ?thesis using good_report_counts[OF q] False Some pf qf by simp
    qed
  qed
  have any: "any_hits fs ?n L \<longleftrightarrow> (\<exists>m\<in>set ms. 0 < hit_count (search m g))"
  proof
    assume "any_hits fs ?n L"
    then obtain f where f: "f \<in> set L" "qresults_of fs ?n f \<noteq> []" by (auto simp: any_hits_def)
    from prot_in[OF f(1)] obtain m r qs where m: "m \<in> set ms" "search m g = Some r"
      "searchio_parse r = Inr qs" "length qs \<le> 1" "qresults_of fs ?n f = qs" by blast
    then have "0 < hit_count (search m g)" using good_report_counts[OF m(3,4)] f(2) by simp
    then show "\<exists>m\<in>set ms. 0 < hit_count (search m g)" using m(1) by blast
  next
    assume "\<exists>m\<in>set ms. 0 < hit_count (search m g)"
    then obtain m where m: "m \<in> set ms" "0 < hit_count (search m g)" by blast
    then obtain r where r: "search m g = Some r" by (cases "search m g") (auto simp: hit_count_def)
    from parsed[OF m(1) r] obtain qs where q: "searchio_parse r = Inr qs" "length qs \<le> 1" by blast
    have "qs \<noteq> []" using good_report_counts[OF q] m(2) r by auto
    moreover have "report_file ?n (col_prot m) \<in> set L" using mem m(1) r by auto
    ultimately show "any_hits fs ?n L" using rfile[OF m(1) r q(1)] by (auto simp: any_hits_def)
  qed
  have keys: "fst ` set (genome_dict_of fs ?n L []) \<subseteq> col_prot ` set ms"
  proof -
    have "prot_of ` {f \<in> set L. qresults_of fs ?n f \<noteq> []} \<subseteq> col_prot ` set ms"
      using prot_in by (auto simp: image_iff)
    then show ?thesis by (simp add: genome_dict_of_keys)
  qed
  show ?thesis using rd look any keys by blast
qed

lemma good_genomes_names:
  assumes "good_genomes gs" "g \<in> set gs"
  shows "genome_name g = Inr (name_of g) \<and> CHR ''-'' \<notin> set (name_of g) \<and>
         name_of g \<noteq> ''.'' \<and> name_of g \<noteq> ''..'' \<and> CHR ''/'' \<notin> set (name_of g)"
proof -
  have c: "case genome_name g of Inl e \<Rightarrow> False
        | Inr name \<Rightarrow> CHR ''-'' \<notin> set name \<and> name \<noteq> ''.'' \<and> name \<noteq> ''..''"
    using assms unfolding good_genomes_def by blast
  then obtain n where n: "genome_name g = Inr n" by (cases "genome_name g") auto
  then have "name_of g = n" by (simp add: name_of_def)
  then show ?thesis using c n genome_name_no_slash[OF n] by simp
qed

lemma map_of_map_key:
  "distinct (map f xs) \<Longrightarrow> x \<in> set xs \<Longrightarrow> map_of (map (\<lambda>x. (f x, h x)) xs) (f x) = Some (h x)"
  by (induction xs) (auto simp: image_iff)

lemma map_of_map_filter:
  "map_of (map (\<lambda>n. (n, h n)) (filter P xs)) n = (if n \<in> set xs \<and> P n then Some (h n) else None)"
  by (induction xs) auto

lemma aggregate_good:
  assumes ls: "listing listdir" and gg: "good_genomes gs" and gm: "good_markers ms"
    and gr: "good_reports search gs ms"
  shows "\<exists>dicts. aggregate listdir search gs ms = Inr dicts \<and>
     distinct (map fst dicts) \<and>
     (\<forall>(n, d)\<in>set dicts. distinct (map fst d) \<and> fst ` set d \<subseteq> col_prot ` set ms) \<and>
     fst ` set dicts = {name_of g | g. g \<in> set gs \<and> (\<exists>m\<in>set ms. 0 < hit_count (search m g))} \<and>
     (\<forall>g\<in>set gs. \<forall>m\<in>set ms. lookup_fact dicts (name_of g) (col_prot m) =
        (if 0 < hit_count (search m g) then Some (hit_count (search m g)) else None))"
proof -
  have names: "\<forall>g\<in>set gs. genome_name g = Inr (name_of g) \<and> CHR ''-'' \<notin> set (name_of g) \<and>
              name_of g \<noteq> ''.'' \<and> name_of g \<noteq> ''..''"
    using good_genomes_names[OF gg] by blast
  have dn: "distinct (map name_of gs)" using gg by (simp add: good_genomes_def)
  have mp: "\<forall>m\<in>set ms. marker_prot m = Inr (col_prot m)" and dm: "distinct (map col_prot ms)"
    using gm by (simp_all add: good_markers_def)
  have e0: "\<forall>g\<in>set gs. name_of g \<notin> fst ` set (fs_dirs empty_fs)" by (simp add: empty_fs_def)
  from run_hmms_good[OF names dn e0 mp dm, of search]
  obtain fs where rh: "run_hmms search gs ms empty_fs = Inr fs"
    and dirs: "fs_dirs fs = fs_dirs empty_fs @ map (\<lambda>g. (name_of g, dir_entries search g ms)) gs"
    and f1: "\<forall>g\<in>set gs. \<forall>m\<in>set ms. map_of (fs_files fs) (outname (name_of g) (col_prot m)) =
          (case search m g of None \<Rightarrow> map_of (fs_files empty_fs) (outname (name_of g) (col_prot m))
            | Some r \<Rightarrow> Some r)"
    by blast
  have dirs': "fs_dirs fs = map (\<lambda>g. (name_of g, dir_entries search g ms)) gs"
    using dirs by (simp add: empty_fs_def)
  have files: "\<forall>g\<in>set gs. \<forall>m\<in>set ms. map_of (fs_files fs) (outname (name_of g) (col_prot m)) = search m g"
    using f1 by (auto simp: empty_fs_def split: option.splits)
  define names' where "names' = listdir (map name_of gs)"
  have perm: "mset names' = mset (map name_of gs)"
    using ls by (simp add: listing_def names'_def)
  have dn': "distinct names'" using perm dn by (metis mset_eq_imp_distinct_iff)
  have sn': "set names' = name_of ` set gs" using perm by (metis mset_eq_setD set_map)
  define E where "E n = (case map_of (fs_dirs fs) n of None \<Rightarrow> [] | Some es \<Rightarrow> listdir es)" for n
  have Eg: "E (name_of g) = listdir (dir_entries search g ms)" if "g \<in> set gs" for g
    using map_of_map_key[OF dn that, of "\<lambda>g. dir_entries search g ms"]
    by (simp add: E_def dirs')
  have sE: "set (E (name_of g)) = set (dir_entries search g ms)" if "g \<in> set gs" for g
  proof -
    have "mset (listdir (dir_entries search g ms)) = mset (dir_entries search g ms)"
      using ls by (simp add: listing_def)
    then show ?thesis using Eg[OF that] by (metis mset_eq_setD)
  qed
  have df: "(\<forall>f\<in>set (E (name_of g)). readable fs (name_of g) f) \<and>
         (\<forall>m\<in>set ms. map_of (genome_dict_of fs (name_of g) (E (name_of g)) []) (col_prot m) =
            (if 0 < hit_count (search m g) then Some (hit_count (search m g)) else None)) \<and>
         (any_hits fs (name_of g) (E (name_of g)) \<longleftrightarrow> (\<exists>m\<in>set ms. 0 < hit_count (search m g))) \<and>
         fst ` set (genome_dict_of fs (name_of g) (E (name_of g)) []) \<subseteq> col_prot ` set ms"
    if g: "g \<in> set gs" for g
  proof (rule dir_facts[OF gm gr g])
    show "CHR ''-'' \<notin> set (name_of g)" "CHR ''/'' \<notin> set (name_of g)"
      using good_genomes_names[OF gg g] by simp_all
    show "\<forall>m\<in>set ms. map_of (fs_files fs) (outname (name_of g) (col_prot m)) = search m g"
      using files g by simp
    show "set (E (name_of g)) = set (dir_entries search g ms)" by (rule sE[OF g])
  qed
  define ds where "ds = map (\<lambda>n. (n, E n)) names'"
  have walk: "os_walk listdir fs = [] # map snd ds"
    by (simp add: os_walk_def ds_def names'_def dirs' E_def comp_def)
  have r1: "\<forall>(n, L)\<in>set ds. \<forall>f\<in>set L. readable fs n f"
  proof (clarify)
    fix n L f assume a: "(n, L) \<in> set ds" "f \<in> set L"
    then have "n \<in> set names'" "L = E n" by (auto simp: ds_def)
    then obtain g where "g \<in> set gs" "n = name_of g" using sn' by auto
    then show "readable fs n f" using df a(2) \<open>L = E n\<close> by blast
  qed
  have r2: "distinct (map fst ds)" using dn' by (simp add: ds_def comp_def)
  let ?a0 = "\<lparr>all_dicts = [], objs = [[]]\<rparr>"
  have r3: "\<forall>(n, L)\<in>set ds. n \<notin> fst ` set (all_dicts ?a0)" by simp
  have r4: "\<forall>(k, r)\<in>set (all_dicts ?a0). r < length (objs ?a0)" by simp
  from parse_dirs_good[OF r1 r2 r3 r4]
  obtain a' where pd: "parse_dirs fs (map snd ds) ?a0 = Inr a'"
    and da: "deref a' = deref ?a0 @ map (\<lambda>(n, L). (n, genome_dict_of fs n L []))
                              (filter (\<lambda>(n, L). any_hits fs n L) ds)"
    by blast
  define dicts where
    "dicts = map (\<lambda>n. (n, genome_dict_of fs n (E n) [])) (filter (\<lambda>n. any_hits fs n (E n)) names')"
  have dd: "deref a' = dicts"
    using da by (simp add: deref_def dicts_def ds_def filter_map comp_def)
  have "parse_dirs fs (os_walk listdir fs) empty_agg = Inr a'"
    using pd walk by (simp add: empty_agg_def)
  then have agg: "aggregate listdir search gs ms = Inr dicts"
    using rh dd by (simp add: aggregate_def parse_results_def)
  have keys: "map fst dicts = filter (\<lambda>n. any_hits fs n (E n)) names'"
    by (simp add: dicts_def comp_def)
  have c1: "distinct (map fst dicts)" using keys dn' by simp
  have c2: "\<forall>(n, d)\<in>set dicts. distinct (map fst d) \<and> fst ` set d \<subseteq> col_prot ` set ms"
  proof (clarify)
    fix n d assume "(n, d) \<in> set dicts"
    then have n: "n \<in> set names'" and d: "d = genome_dict_of fs n (E n) []"
      by (auto simp: dicts_def)
    from n obtain g where g: "g \<in> set gs" "n = name_of g" using sn' by auto
    have "distinct (map fst d)" unfolding d by (rule genome_dict_of_distinct) simp
    moreover have "fst ` set d \<subseteq> col_prot ` set ms" using df[OF g(1)] d g(2) by simp
    ultimately show "distinct (map fst d) \<and> fst ` set d \<subseteq> col_prot ` set ms" by simp
  qed
  have c3: "fst ` set dicts = {name_of g | g. g \<in> set gs \<and> (\<exists>m\<in>set ms. 0 < hit_count (search m g))}"
  proof -
    have "fst ` set dicts = {n \<in> set names'. any_hits fs n (E n)}"
      using keys by (metis set_filter set_map)
    also have "\<dots> = {name_of g | g. g \<in> set gs \<and> (\<exists>m\<in>set ms. 0 < hit_count (search m g))}"
      using sn' df by auto
    finally show ?thesis .
  qed
  have c4: "\<forall>g\<in>set gs. \<forall>m\<in>set ms. lookup_fact dicts (name_of g) (col_prot m) =
        (if 0 < hit_count (search m g) then Some (hit_count (search m g)) else None)"
  proof (intro ballI)
    fix g m assume g: "g \<in> set gs" and m: "m \<in> set ms"
    have in': "name_of g \<in> set names'" using sn' g by simp
    have mo: "map_of dicts (name_of g) =
        (if any_hits fs (name_of g) (E (name_of g))
         then Some (genome_dict_of fs (name_of g) (E (name_of g)) []) else None)"
      using in' unfolding dicts_def map_of_map_filter by simp
    show "lookup_fact dicts (name_of g) (col_prot m) =
        (if 0 < hit_count (search m g) then Some (hit_count (search m g)) else None)"
    proof (cases "any_hits fs (name_of g) (E (name_of g))")
      case True
      then show ?thesis using mo df[OF g] m by (simp add: lookup_fact_def)
    next
      case False
      then have "\<not> 0 < hit_count (search m g)" using df[OF g] m by blast
      then show ?thesis using mo False by (simp add: lookup_fact_def)
    qed
  qed
  show ?thesis using agg c1 c2 c3 c4 by blast
qed

section \<open>The data frame in terms of the aggregated counts\<close>

lemma unique_first_snoc:
  "unique_first (xs @ [x]) = (if x \<in> set xs then unique_first xs else unique_first xs @ [x])"
  by (simp add: unique_first_def)

lemma set_unique_first: "set (unique_first xs) = set xs"
  by (simp add: unique_first_def)

lemma distinct_unique_first: "distinct (unique_first xs)"
  by (simp add: unique_first_def)

lemma unique_first_Nil: "unique_first [] = []"
  by (simp add: unique_first_def)

lemma lookup_nested_put:
  "lookup_fact (nested_put c i v nd) c' i' =
     (if c' = c \<and> i' = i then Some v else lookup_fact nd c' i')"
  by (auto simp: lookup_fact_def nested_put_def update_conv' split: option.splits)

lemma keys_nested_put:
  "map fst (nested_put c i v nd) = (if c \<in> set (map fst nd) then map fst nd else map fst nd @ [c])"
  by (simp add: nested_put_def update_keys)

lemma lookup_fold_inner:
  "distinct (map fst s) \<Longrightarrow>
   lookup_fact (fold (\<lambda>(col, v). nested_put col idx v) s nd) c i =
     (if i = idx \<and> c \<in> fst ` set s then map_of s c else lookup_fact nd c i)"
proof (induction s arbitrary: nd)
  case Nil
  then show ?case by simp
next
  case (Cons x s)
  obtain col v where x: "x = (col, v)" by (cases x)
  have "col \<notin> fst ` set s" and "distinct (map fst s)" using Cons.prems x by auto
  then show ?case using Cons.IH[of "nested_put col idx v nd"] x
    by (auto simp: lookup_nested_put)
qed

lemma keys_fold_inner:
  "map fst nd = unique_first ks \<Longrightarrow>
   map fst (fold (\<lambda>(col, v). nested_put col idx v) s nd) = unique_first (ks @ map fst s)"
proof (induction s rule: rev_induct)
  case Nil
  then show ?case by simp
next
  case (snoc x s)
  obtain col v where x: "x = (col, v)" by (cases x)
  have "ks @ map fst (s @ [x]) = (ks @ map fst s) @ [col]" using x by simp
  then show ?case using snoc x
    by (simp only: unique_first_snoc fold_append comp_def fold_simps prod.case keys_nested_put
        set_map set_unique_first split: if_splits) 
qed


lemma lookup_fact_Cons:
  "lookup_fact ((k, d) # xs) i c = (if i = k then map_of d c else lookup_fact xs i c)"
  by (simp add: lookup_fact_def)

lemma lookup_fact_absent: "i \<notin> fst ` set xs \<Longrightarrow> lookup_fact xs i c = None"
  by (simp add: lookup_fact_def map_of_eq_None_iff[THEN iffD2])

lemma lookup_fold_outer:
  assumes "distinct (map fst data)" and "\<forall>(i, s)\<in>set data. distinct (map fst s)"
  shows "lookup_fact
           (fold (\<lambda>(idx, s) new_data. fold (\<lambda>(col, v). nested_put col idx v) s new_data) data nd0) c i =
         (case lookup_fact data i c of Some v \<Rightarrow> Some v | None \<Rightarrow> lookup_fact nd0 c i)"
  using assms
proof (induction data arbitrary: nd0)
  case Nil
  then show ?case by (simp add: lookup_fact_def)
next
  case (Cons x data)
  obtain idx s where x: "x = (idx, s)" by (cases x)
  have ds: "distinct (map fst s)" and nk: "idx \<notin> fst ` set data"
    and d': "distinct (map fst data)" and a': "\<forall>(i, s)\<in>set data. distinct (map fst s)"
    using Cons.prems x by auto
  let ?nd1 = "fold (\<lambda>(col, v). nested_put col idx v) s nd0"
  let ?F = "\<lambda>data nd. fold (\<lambda>(idx, s) new_data. fold (\<lambda>(col, v). nested_put col idx v) s new_data) data nd"
  have step: "?F (x # data) nd0 = ?F data ?nd1" using x by simp
  have ih: "lookup_fact (?F data ?nd1) c i =
         (case lookup_fact data i c of Some v \<Rightarrow> Some v | None \<Rightarrow> lookup_fact ?nd1 c i)"
    by (rule Cons.IH[OF d' a'])
  have inner: "lookup_fact ?nd1 c i =
     (if i = idx \<and> c \<in> fst ` set s then map_of s c else lookup_fact nd0 c i)"
    by (rule lookup_fold_inner[OF ds])
  have s0: "lookup_fact (?F (x # data) nd0) c i = lookup_fact (?F data ?nd1) c i"
    by (simp only: step)
  show ?case
  proof (cases "i = idx")
    case True
    have n: "lookup_fact data i c = None" using nk True by (simp add: lookup_fact_absent)
    have R: "lookup_fact (x # data) i c = map_of s c" using x True by (simp add: lookup_fact_Cons)
    have L: "lookup_fact (?F (x # data) nd0) c i = lookup_fact ?nd1 c i"
      using s0 ih n by simp
    show ?thesis
    proof (cases "c \<in> fst ` set s")
      case c: True
      then obtain v where v: "map_of s c = Some v" by (metis map_of_eq_None_iff not_Some_eq)
      have "lookup_fact ?nd1 c i = Some v" using inner True c v by simp
      then show ?thesis using L R v by simp
    next
      case c: False
      then have v: "map_of s c = None" by (simp add: map_of_eq_None_iff)
      have "lookup_fact ?nd1 c i = lookup_fact nd0 c i" using inner c by simp
      then show ?thesis using L R v by simp
    qed
  next
    case False
    have R: "lookup_fact (x # data) i c = lookup_fact data i c"
      using x False by (simp add: lookup_fact_Cons)
    have "lookup_fact ?nd1 c i = lookup_fact nd0 c i" using inner False by simp
    then show ?thesis using s0 ih R by (simp split: option.splits)
  qed
qed

lemma lookup_from_nested_dict:
  assumes "distinct (map fst dicts)" and "\<forall>(i, s)\<in>set dicts. distinct (map fst s)"
  shows "lookup_fact (from_nested_dict dicts) c i = lookup_fact dicts i c"
  using lookup_fold_outer[OF assms, of "[]" c i]
  by (simp add: from_nested_dict_def lookup_fact_def split: option.splits)

lemma keys_from_nested_dict: "map fst (from_nested_dict dicts) = observed_markers dicts"
proof (induction dicts rule: rev_induct)
  case Nil
  then show ?case by (simp add: from_nested_dict_def observed_markers_def unique_first_def)
next
  case (snoc x dicts)
  obtain idx s where x: "x = (idx, s)" by (cases x)
  have "map fst (from_nested_dict dicts) = unique_first (concat (map (\<lambda>(g, d). map fst d) dicts))"
    using snoc by (simp add: observed_markers_def)
  from keys_fold_inner[OF this, of idx s]
  show ?case using x by (simp add: from_nested_dict_def observed_markers_def)
qed

lemma assemble_eq:
  "assemble dicts markers =
     \<lparr>df_index = unique_first (concat (map (\<lambda>(col, d). map fst d) (from_nested_dict dicts))),
      df_columns = all_cols markers (observed_markers dicts),
      df_cells =
        map (\<lambda>i. map (\<lambda>c. Some (case lookup_fact (from_nested_dict dicts) c i of None \<Rightarrow> 0 | Some v \<Rightarrow> v))
                   (all_cols markers (observed_markers dicts)))
          (unique_first (concat (map (\<lambda>(col, d). map fst d) (from_nested_dict dicts))))\<rparr>"
proof -
  let ?nd = "from_nested_dict dicts"
  have k: "map fst ?nd = observed_markers dicts" by (rule keys_from_nested_dict)
  have z: "(case map_of (zip (observed_markers dicts)
                 (map (\<lambda>c. lookup_fact ?nd c i) (observed_markers dicts))) c of
              None \<Rightarrow> None | Some v \<Rightarrow> v) = lookup_fact ?nd c i" for c i
  proof (cases "c \<in> set (observed_markers dicts)")
    case True
    then show ?thesis by (simp add: map_of_zip_map)
  next
    case False
    then have "map_of ?nd c = None" using k by (metis map_of_eq_None_iff set_map)
    then show ?thesis using False by (simp add: map_of_zip_map lookup_fact_def)
  qed
  have cells: "df_cells (from_dict dicts) =
      map (\<lambda>i. map (\<lambda>c. lookup_fact ?nd c i) (observed_markers dicts))
        (unique_first (concat (map (\<lambda>(col, d). map fst d) ?nd)))"
    unfolding k[symmetric] by (simp add: from_dict_def Let_def lookup_fact_def)
  have cols: "df_columns (from_dict dicts) = observed_markers dicts"
    using k by (simp add: from_dict_def Let_def)
  have idx: "df_index (from_dict dicts) = unique_first (concat (map (\<lambda>(col, d). map fst d) ?nd))"
    by (simp add: from_dict_def Let_def)
  show ?thesis
    by (simp add: assemble_def Let_def fillna_def reindex_def cells cols idx z comp_def
        split: option.splits cong: map_cong)
qed

section \<open>What the aggregation keeps true\<close>

lemma set_alist_update: "set (AList.update k v al) \<subseteq> insert (k, v) (set al)"
  by (induction al) auto

lemma record_hits_inv:
  assumes "agg_inv a" "ref < length (objs a)" "\<forall>(q, hits)\<in>set qs. hits \<noteq> []"
    and "record_hits ref prot file qs a = Inr a'"
  shows "agg_inv a' \<and> length (objs a') = length (objs a)"
  using assms
proof (induction qs arbitrary: a)
  case Nil
  then show ?case by simp
next
  case (Cons x qs)
  obtain q hits where x: "x = (q, hits)" by (cases x)
  have hn: "hits \<noteq> []" using Cons.prems(3) x by simp
  from Cons.prems(4) x obtain key where key: "file_genome (basename file) = Inr key"
    by (cases "file_genome (basename file)") (auto simp: Let_def)
  let ?d = "AList.update prot (int (length hits)) (objs a ! ref)"
  let ?a2 = "a\<lparr>objs := (objs a)[ref := ?d], all_dicts := AList.update key ref (all_dicts a)\<rparr>"
  have step: "record_hits ref prot file qs ?a2 = Inr a'"
    using Cons.prems(4) x key by (simp add: Let_def)
  have old: "distinct (map fst (all_dicts a))"
    "\<forall>(k, r)\<in>set (all_dicts a). r < length (objs a) \<and> objs a ! r \<noteq> []"
    "\<forall>d\<in>set (objs a). distinct (map fst d) \<and> (\<forall>(p, v)\<in>set d. 1 \<le> v)"
    using Cons.prems(1) by (simp_all add: agg_inv_def)
  have mem: "objs a ! ref \<in> set (objs a)" using Cons.prems(2) by simp
  have dgood: "distinct (map fst ?d) \<and> (\<forall>(p, v)\<in>set ?d. 1 \<le> v)"
  proof
    show "distinct (map fst ?d)" using old(3) mem by (simp add: distinct_update)
    have "1 \<le> int (length hits)" using hn by (cases hits) auto
    then show "\<forall>(p, v)\<in>set ?d. 1 \<le> v"
      using old(3) mem set_alist_update[of prot "int (length hits)" "objs a ! ref"] by fastforce
  qed
  have i1: "distinct (map fst (all_dicts ?a2))" using old(1) by (simp add: distinct_update)
  have i2: "\<forall>(k, r)\<in>set (all_dicts ?a2). r < length (objs ?a2) \<and> objs ?a2 ! r \<noteq> []"
  proof (clarify)
    fix k r assume "(k, r) \<in> set (all_dicts ?a2)"
    then have "(k, r) = (key, ref) \<or> (k, r) \<in> set (all_dicts a)"
      using set_alist_update[of key ref "all_dicts a"] by auto
    then have r: "r < length (objs a)" and ne: "r \<noteq> ref \<Longrightarrow> objs a ! r \<noteq> []"
      using Cons.prems(2) old(2) by auto
    show "r < length (objs ?a2) \<and> objs ?a2 ! r \<noteq> []"
      using r ne by (cases "r = ref") simp_all
  qed
  have i3: "\<forall>d\<in>set (objs ?a2). distinct (map fst d) \<and> (\<forall>(p, v)\<in>set d. 1 \<le> v)"
  proof
    fix d assume "d \<in> set (objs ?a2)"
    then have "d = ?d \<or> d \<in> set (objs a)"
      using set_update_subset_insert[of "objs a" ref ?d] by auto
    then show "distinct (map fst d) \<and> (\<forall>(p, v)\<in>set d. 1 \<le> v)"
      using dgood old(3) by blast
  qed
  have inv2: "agg_inv ?a2" unfolding agg_inv_def using i1 i2 i3 by blast
  have l2: "ref < length (objs ?a2)" using Cons.prems(2) by simp
  have q2: "\<forall>(q, hits)\<in>set qs. hits \<noteq> []" using Cons.prems(3) by simp
  from Cons.IH[OF inv2 l2 q2 step] show ?case by simp
qed

lemma searchio_parse_nonempty:
  "searchio_parse r = Inr qs \<Longrightarrow> \<forall>(q, hits)\<in>set qs. hits \<noteq> []"
  by (cases r) (auto simp: searchio_parse_def split: if_splits dest: group_rows_nonempty)

lemma parse_files_inv:
  assumes "agg_inv a" "ref < length (objs a)" "parse_files fs ref L a = Inr a'"
  shows "agg_inv a' \<and> length (objs a') = length (objs a)"
  using assms
proof (induction L arbitrary: a)
  case Nil
  then show ?case by simp
next
  case (Cons f L)
  from Cons.prems(3) obtain genome prot r qs a1 where
    "file_genome f = Inr genome" "file_prot f = Inr prot"
    "map_of (fs_files fs) (result_path genome f) = Some r"
    and sp: "searchio_parse r = Inr qs"
    and rh: "record_hits ref prot f qs a = Inr a1"
    and rest: "parse_files fs ref L a1 = Inr a'"
    by (auto split: sum.splits option.splits)
  from record_hits_inv[OF Cons.prems(1,2) searchio_parse_nonempty[OF sp] rh]
  have i1: "agg_inv a1" and l1: "length (objs a1) = length (objs a)" by simp_all
  have "ref < length (objs a1)" using l1 Cons.prems(2) by simp
  from Cons.IH[OF i1 this rest] show ?case using l1 by simp
qed

lemma parse_dirs_inv:
  assumes "agg_inv a" "parse_dirs fs Ls a = Inr a'"
  shows "agg_inv a'"
  using assms
proof (induction Ls arbitrary: a)
  case Nil
  then show ?case by simp
next
  case (Cons L Ls)
  let ?a0 = "a\<lparr>objs := objs a @ [[]]\<rparr>"
  from Cons.prems(2) obtain a1 where pf: "parse_files fs (length (objs a)) L ?a0 = Inr a1"
    and rest: "parse_dirs fs Ls a1 = Inr a'"
    by (auto split: sum.splits)
  have "agg_inv ?a0"
    using Cons.prems(1) unfolding agg_inv_def by (auto simp: nth_append)
  from parse_files_inv[OF this _ pf] have "agg_inv a1" by simp
  from Cons.IH[OF this rest] show ?case .
qed

lemma deref_good: "agg_inv a \<Longrightarrow> good_dicts (deref a)"
proof -
  assume inv: "agg_inv a"
  have k: "map fst (deref a) = map fst (all_dicts a)"
    by (simp add: deref_def comp_def case_prod_unfold)
  have "d \<noteq> [] \<and> distinct (map fst d) \<and> (\<forall>(p, v)\<in>set d. 1 \<le> v)" if "(g, d) \<in> set (deref a)" for g d
  proof -
    from that obtain r where r: "(g, r) \<in> set (all_dicts a)" "d = objs a ! r"
      by (auto simp: deref_def)
    then have "r < length (objs a)" "objs a ! r \<noteq> []" using inv by (auto simp: agg_inv_def)
    then have "d \<in> set (objs a)" "d \<noteq> []" using r(2) by simp_all
    then show ?thesis using inv by (auto simp: agg_inv_def)
  qed
  then have "\<forall>(g, d)\<in>set (deref a). d \<noteq> [] \<and> distinct (map fst d) \<and> (\<forall>(p, v)\<in>set d. 1 \<le> v)"
    by blast
  moreover have "distinct (map fst (deref a))" using inv k by (simp add: agg_inv_def)
  ultimately show ?thesis unfolding good_dicts_def by blast
qed

lemma aggregate_good_dicts:
  "aggregate listdir search gs ms = Inr dicts \<Longrightarrow> good_dicts dicts"
proof -
  assume a: "aggregate listdir search gs ms = Inr dicts"
  then obtain fs a' where "parse_dirs fs (os_walk listdir fs) empty_agg = Inr a'" "dicts = deref a'"
    by (auto simp: aggregate_def parse_results_def split: sum.splits)
  moreover have "agg_inv empty_agg" by (simp add: agg_inv_def empty_agg_def)
  ultimately show ?thesis using parse_dirs_inv deref_good by blast
qed

lemma set_observed_markers:
  "set (observed_markers dicts) = (\<Union>(g, d)\<in>set dicts. fst ` set d)"
  by (auto simp: observed_markers_def set_unique_first)

lemma lookup_fact_SomeD:
  "lookup_fact dicts g c = Some v \<Longrightarrow> \<exists>d. (g, d) \<in> set dicts \<and> (c, v) \<in> set d"
  by (auto simp: lookup_fact_def split: option.splits dest: map_of_SomeD)

lemma lookup_fact_SomeI:
  assumes "distinct (map fst dicts)" "(g, d) \<in> set dicts" "distinct (map fst d)" "(c, v) \<in> set d"
  shows "lookup_fact dicts g c = Some v"
  using assms by (simp add: lookup_fact_def)

lemma good_dicts_lookup:
  assumes "good_dicts dicts"
  shows "lookup_fact (from_nested_dict dicts) c i = lookup_fact dicts i c"
proof (rule lookup_from_nested_dict)
  show "distinct (map fst dicts)" using assms by (simp add: good_dicts_def)
  show "\<forall>(i, s)\<in>set dicts. distinct (map fst s)" using assms by (auto simp: good_dicts_def)
qed

lemma good_dicts_positive:
  assumes "good_dicts dicts" "lookup_fact dicts g c = Some v"
  shows "1 \<le> v"
proof -
  from lookup_fact_SomeD[OF assms(2)] obtain d where "(g, d) \<in> set dicts" "(c, v) \<in> set d" by blast
  then show ?thesis using assms(1) by (auto simp: good_dicts_def)
qed

lemma good_dicts_index:
  assumes "good_dicts dicts"
  shows "set (unique_first (concat (map (\<lambda>(col, d). map fst d) (from_nested_dict dicts)))) = fst ` set dicts"
proof -
  let ?nd = "from_nested_dict dicts"
  have dk: "distinct (map fst ?nd)"
    by (simp add: keys_from_nested_dict observed_markers_def distinct_unique_first)
  have dd: "distinct (map fst dicts)" using assms by (simp add: good_dicts_def)
  have fwd: "i \<in> fst ` set dicts" if a1: "(c, d) \<in> set ?nd" and a2: "i \<in> fst ` set d" for i c d
  proof -
    have m1: "map_of ?nd c = Some d" using dk a1 by simp
    obtain v where m2: "map_of d i = Some v"
      using a2 by (metis map_of_eq_None_iff not_Some_eq)
    have "lookup_fact ?nd c i = Some v" using m1 m2 by (simp add: lookup_fact_def)
    then have "lookup_fact dicts i c = Some v" using good_dicts_lookup[OF assms] by simp
    then show ?thesis using lookup_fact_SomeD by (metis fst_conv imageI)
  qed
  have bwd: "\<exists>c d. (c, d) \<in> set ?nd \<and> i \<in> fst ` set d" if "i \<in> fst ` set dicts" for i
  proof -
    from that obtain d where d: "(i, d) \<in> set dicts" by auto
    then have "d \<noteq> []" and ds: "distinct (map fst d)" using assms by (auto simp: good_dicts_def)
    then obtain c v where cv: "(c, v) \<in> set d" by (cases d) auto
    have "lookup_fact dicts i c = Some v" by (rule lookup_fact_SomeI[OF dd d ds cv])
    then have "lookup_fact ?nd c i = Some v" using good_dicts_lookup[OF assms] by simp
    then obtain d' where "map_of ?nd c = Some d'" "map_of d' i = Some v"
      by (auto simp: lookup_fact_def split: option.splits)
    then have "(c, d') \<in> set ?nd" "i \<in> fst ` set d'"
      by (auto dest: map_of_SomeD simp: image_iff) (metis fst_conv map_of_SomeD)
    then show ?thesis by blast
  qed
  have s: "set (unique_first (concat (map (\<lambda>(col, d). map fst d) ?nd))) =
      {i. \<exists>c d. (c, d) \<in> set ?nd \<and> i \<in> fst ` set d}"
    by (auto simp: set_unique_first)
  show ?thesis unfolding s
  proof (intro equalityI subsetI)
    fix i assume "i \<in> {i. \<exists>c d. (c, d) \<in> set ?nd \<and> i \<in> fst ` set d}"
    then show "i \<in> fst ` set dicts" using fwd by blast
  next
    fix i assume "i \<in> fst ` set dicts"
    then show "i \<in> {i. \<exists>c d. (c, d) \<in> set ?nd \<and> i \<in> fst ` set d}" using bwd by blast
  qed
qed

text \<open>The frame of a run, in terms of the aggregated counts.\<close>

lemma assemble_good:
  assumes "good_dicts dicts"
  shows "\<exists>idx. distinct idx \<and> set idx = fst ` set dicts \<and>
     assemble dicts markers =
       \<lparr>df_index = idx,
        df_columns = all_cols markers (observed_markers dicts),
        df_cells = map (\<lambda>i. map (\<lambda>c. Some (case lookup_fact dicts i c of None \<Rightarrow> 0 | Some v \<Rightarrow> v))
                               (all_cols markers (observed_markers dicts))) idx\<rparr>"
proof -
  let ?idx = "unique_first (concat (map (\<lambda>(col, d). map fst d) (from_nested_dict dicts)))"
  have "distinct ?idx" by (rule distinct_unique_first)
  moreover have "set ?idx = fst ` set dicts" by (rule good_dicts_index[OF assms])
  moreover have "assemble dicts markers =
       \<lparr>df_index = ?idx,
        df_columns = all_cols markers (observed_markers dicts),
        df_cells = map (\<lambda>i. map (\<lambda>c. Some (case lookup_fact dicts i c of None \<Rightarrow> 0 | Some v \<Rightarrow> v))
                               (all_cols markers (observed_markers dicts))) ?idx\<rparr>"
    unfolding assemble_eq good_dicts_lookup[OF assms] by simp
  ultimately show ?thesis by blast
qed

section \<open>Matrix facts used by the properties\<close>

lemma run_InrD:
  "run listdir search genomes markers = Inr M \<Longrightarrow>
     \<exists>dicts. aggregate listdir search genomes markers = Inr dicts \<and> good_dicts dicts \<and>
        M = assemble dicts markers"
  by (auto simp: run_def split: sum.splits dest: aggregate_good_dicts)

lemma all_cols_absent: "all_cols markers (observed_markers dicts) = absent_markers markers dicts @ observed_markers dicts"
  by (simp add: all_cols_def absent_markers_def)

lemma length_absent:
  assumes "distinct P" "distinct Obs" "set Obs \<subseteq> set P"
  shows "length (filter (\<lambda>p. p \<notin> set Obs) P) + length Obs = length P"
proof -
  have "length (filter (\<lambda>p. p \<notin> set Obs) P) = card ({p. p \<notin> set Obs} \<inter> set P)"
    using assms(1) by (rule distinct_length_filter)
  also have "{p. p \<notin> set Obs} \<inter> set P = set P - set Obs" by auto
  also have "card (set P - set Obs) = card (set P) - card (set Obs)"
    using assms(3) by (simp add: card_Diff_subset)
  finally have "length (filter (\<lambda>p. p \<notin> set Obs) P) = card (set P) - card (set Obs)" .
  moreover have "card (set Obs) \<le> card (set P)" using assms(3) by (simp add: card_mono)
  moreover have "card (set P) = length P" "card (set Obs) = length Obs"
    using assms(1,2) by (simp_all add: distinct_card)
  ultimately show ?thesis by simp
qed

lemma hit_count_nonneg: "0 \<le> hit_count r"
  by (auto simp: hit_count_def split: option.splits report.splits)

text \<open>The run on good inputs, in terms of the hit counts of the searches.\<close>

lemma run_good:
  assumes ls: "listing listdir" and gg: "good_genomes genomes" and gm: "good_markers markers"
    and gr: "good_reports search genomes markers"
  shows "\<exists>dicts idx. aggregate listdir search genomes markers = Inr dicts \<and>
     run listdir search genomes markers =
       Inr \<lparr>df_index = idx, df_columns = all_cols markers (observed_markers dicts),
            df_cells = map (\<lambda>i. map (\<lambda>c. Some (case lookup_fact dicts i c of None \<Rightarrow> 0 | Some v \<Rightarrow> v))
                               (all_cols markers (observed_markers dicts))) idx\<rparr> \<and>
     distinct idx \<and>
     set idx = {name_of g | g. g \<in> set genomes \<and> (\<exists>m\<in>set markers. 0 < hit_count (search m g))} \<and>
     distinct (observed_markers dicts) \<and>
     set (observed_markers dicts) \<subseteq> col_prot ` set markers \<and>
     (\<forall>g\<in>set genomes. \<forall>m\<in>set markers. lookup_fact dicts (name_of g) (col_prot m) =
        (if 0 < hit_count (search m g) then Some (hit_count (search m g)) else None))"
proof -
  from aggregate_good[OF ls gg gm gr] obtain dicts where
    X: "aggregate listdir search genomes markers = Inr dicts \<and>
     distinct (map fst dicts) \<and>
     (\<forall>(n, d)\<in>set dicts. distinct (map fst d) \<and> fst ` set d \<subseteq> col_prot ` set markers) \<and>
     fst ` set dicts = {name_of g | g. g \<in> set genomes \<and> (\<exists>m\<in>set markers. 0 < hit_count (search m g))} \<and>
     (\<forall>g\<in>set genomes. \<forall>m\<in>set markers. lookup_fact dicts (name_of g) (col_prot m) =
        (if 0 < hit_count (search m g) then Some (hit_count (search m g)) else None))" ..
  have ag: "aggregate listdir search genomes markers = Inr dicts"
    using X by (elim conjE)
  have c2: "\<forall>(n, d)\<in>set dicts. distinct (map fst d) \<and> fst ` set d \<subseteq> col_prot ` set markers"
    using X by (elim conjE)
  have c3: "fst ` set dicts = {name_of g | g. g \<in> set genomes \<and> (\<exists>m\<in>set markers. 0 < hit_count (search m g))}"
    using X by (elim conjE)
  have c4: "\<forall>g\<in>set genomes. \<forall>m\<in>set markers. lookup_fact dicts (name_of g) (col_prot m) =
        (if 0 < hit_count (search m g) then Some (hit_count (search m g)) else None)"
    using X by (elim conjE)
  have gd: "good_dicts dicts" using ag by (rule aggregate_good_dicts)
  from assemble_good[OF gd, of markers] obtain idx where
    Y: "distinct idx \<and> set idx = fst ` set dicts \<and>
     assemble dicts markers =
       \<lparr>df_index = idx, df_columns = all_cols markers (observed_markers dicts),
        df_cells = map (\<lambda>i. map (\<lambda>c. Some (case lookup_fact dicts i c of None \<Rightarrow> 0 | Some v \<Rightarrow> v))
                               (all_cols markers (observed_markers dicts))) idx\<rparr>" ..
  have di: "distinct idx" using Y by (elim conjE)
  have si: "set idx = fst ` set dicts" using Y by (elim conjE)
  have A: "assemble dicts markers =
       \<lparr>df_index = idx, df_columns = all_cols markers (observed_markers dicts),
        df_cells = map (\<lambda>i. map (\<lambda>c. Some (case lookup_fact dicts i c of None \<Rightarrow> 0 | Some v \<Rightarrow> v))
                               (all_cols markers (observed_markers dicts))) idx\<rparr>"
    using Y by (elim conjE)
  have r: "run listdir search genomes markers = Inr (assemble dicts markers)"
    using ag by (simp add: run_def)
  have so: "set (observed_markers dicts) \<subseteq> col_prot ` set markers"
  proof
    fix c assume "c \<in> set (observed_markers dicts)"
    then obtain g d where "(g, d) \<in> set dicts" "c \<in> fst ` set d"
      unfolding set_observed_markers by auto
    then show "c \<in> col_prot ` set markers" using c2 by blast
  qed
  have dob: "distinct (observed_markers dicts)"
    by (simp add: observed_markers_def distinct_unique_first)
  have r': "run listdir search genomes markers =
       Inr \<lparr>df_index = idx, df_columns = all_cols markers (observed_markers dicts),
            df_cells = map (\<lambda>i. map (\<lambda>c. Some (case lookup_fact dicts i c of None \<Rightarrow> 0 | Some v \<Rightarrow> v))
                               (all_cols markers (observed_markers dicts))) idx\<rparr>"
    unfolding r A ..
  have si': "set idx = {name_of g | g. g \<in> set genomes \<and> (\<exists>m\<in>set markers. 0 < hit_count (search m g))}"
    unfolding si c3 ..
  show ?thesis
    apply (rule exI[of _ dicts])
    apply (rule exI[of _ idx])
    apply (intro conjI)
          apply (rule ag)
         apply (rule r')
        apply (rule di)
       apply (rule si')
      apply (rule dob)
     apply (rule so)
    apply (rule c4)
    done
qed

subsection \<open>The worked scenario\<close>

lemma listing_id: "listing id"
  by (simp add: listing_def)

lemma scenario_good_genomes: "good_genomes scenario_genomes"
  by code_simp

lemma scenario_good_markers: "good_markers scenario_markers"
  by code_simp

lemma scenario_good_reports: "good_reports scenario_search scenario_genomes scenario_markers"
  by code_simp

lemma scenario_run: "run id scenario_search scenario_genomes scenario_markers = Inr scenario_frame"
  by code_simp

section \<open>C1: the shape of the matrix\<close>

text \<open>
  C1 (as amended). On good inputs (identifiers that can be read back from the report
  names, reports with at most one query) the run writes a matrix with exactly one column
  per marker of the marker input set, and with exactly one row for every genome that has
  at least one hit for at least one marker: a genome without any hit has no row, so the
  matrix has at most as many rows as there are genomes.
\<close>

theorem matrix_shape:
  assumes "listing listdir" and "good_genomes genomes" and "good_markers markers"
    and "good_reports search genomes markers"
  shows "\<exists>M. run listdir search genomes markers = Inr M \<and>
     length (df_columns M) = length markers \<and>
     set (df_columns M) = col_prot ` set markers \<and>
     distinct (df_index M) \<and>
     set (df_index M) =
       {name_of g | g. g \<in> set genomes \<and> (\<exists>m\<in>set markers. 0 < hit_count (search m g))} \<and>
     length (df_index M) \<le> length genomes \<and>
     length (df_cells M) = length (df_index M)"
proof -
  from run_good[OF assms] obtain dicts idx where
    X: "aggregate listdir search genomes markers = Inr dicts \<and>
     run listdir search genomes markers =
       Inr \<lparr>df_index = idx, df_columns = all_cols markers (observed_markers dicts),
            df_cells = map (\<lambda>i. map (\<lambda>c. Some (case lookup_fact dicts i c of None \<Rightarrow> 0 | Some v \<Rightarrow> v))
                               (all_cols markers (observed_markers dicts))) idx\<rparr> \<and>
     distinct idx \<and>
     set idx = {name_of g | g. g \<in> set genomes \<and> (\<exists>m\<in>set markers. 0 < hit_count (search m g))} \<and>
     distinct (observed_markers dicts) \<and>
     set (observed_markers dicts) \<subseteq> col_prot ` set markers \<and>
     (\<forall>g\<in>set genomes. \<forall>m\<in>set markers. lookup_fact dicts (name_of g) (col_prot m) =
        (if 0 < hit_count (search m g) then Some (hit_count (search m g)) else None))"
    by (elim exE)
  have r: "run listdir search genomes markers =
       Inr \<lparr>df_index = idx, df_columns = all_cols markers (observed_markers dicts),
            df_cells = map (\<lambda>i. map (\<lambda>c. Some (case lookup_fact dicts i c of None \<Rightarrow> 0 | Some v \<Rightarrow> v))
                               (all_cols markers (observed_markers dicts))) idx\<rparr>"
    using X by (elim conjE)
  have di: "distinct idx" using X by (elim conjE)
  have si: "set idx = {name_of g | g. g \<in> set genomes \<and> (\<exists>m\<in>set markers. 0 < hit_count (search m g))}"
    using X by (elim conjE)
  have dob: "distinct (observed_markers dicts)" using X by (elim conjE)
  have so: "set (observed_markers dicts) \<subseteq> col_prot ` set markers" using X by (elim conjE)
  have c4: "\<forall>g\<in>set genomes. \<forall>m\<in>set markers. lookup_fact dicts (name_of g) (col_prot m) =
        (if 0 < hit_count (search m g) then Some (hit_count (search m g)) else None)"
    using X by (elim conjE)
  have dp: "distinct (map col_prot markers)" using assms(3) by (simp add: good_markers_def)
  have so': "set (observed_markers dicts) \<subseteq> set (map col_prot markers)" using so by simp
  have len: "length (all_cols markers (observed_markers dicts)) = length markers"
    using length_absent[OF dp dob so'] by (simp add: all_cols_def)
  have sc: "set (all_cols markers (observed_markers dicts)) = col_prot ` set markers"
    using so by (auto simp: all_cols_def)
  have "set idx \<subseteq> name_of ` set genomes" using si by auto
  then have "card (set idx) \<le> card (name_of ` set genomes)" by (simp add: card_mono)
  also have "\<dots> \<le> card (set genomes)" by (simp add: card_image_le)
  also have "\<dots> \<le> length genomes" by (rule card_length)
  finally have li: "length idx \<le> length genomes" using di by (simp add: distinct_card)
  show ?thesis using r len sc di si li by simp
qed

theorem matrix_shape_witness:
  "listing id \<and> good_genomes scenario_genomes \<and> good_markers scenario_markers \<and>
   good_reports scenario_search scenario_genomes scenario_markers \<and>
   (\<exists>M. run id scenario_search scenario_genomes scenario_markers = Inr M \<and>
     length (df_columns M) = length scenario_markers \<and>
     set (df_columns M) = col_prot ` set scenario_markers \<and>
     distinct (df_index M) \<and>
     set (df_index M) =
       {name_of g | g. g \<in> set scenario_genomes \<and>
          (\<exists>m\<in>set scenario_markers. 0 < hit_count (scenario_search m g))} \<and>
     length (df_index M) \<le> length scenario_genomes \<and>
     length (df_cells M) = length (df_index M))"
proof (intro conjI)
  show "listing id" by (rule listing_id)
  show "good_genomes scenario_genomes" by (rule scenario_good_genomes)
  show "good_markers scenario_markers" by (rule scenario_good_markers)
  show "good_reports scenario_search scenario_genomes scenario_markers"
    by (rule scenario_good_reports)
  show "\<exists>M. run id scenario_search scenario_genomes scenario_markers = Inr M \<and>
     length (df_columns M) = length scenario_markers \<and>
     set (df_columns M) = col_prot ` set scenario_markers \<and>
     distinct (df_index M) \<and>
     set (df_index M) =
       {name_of g | g. g \<in> set scenario_genomes \<and>
          (\<exists>m\<in>set scenario_markers. 0 < hit_count (scenario_search m g))} \<and>
     length (df_index M) \<le> length scenario_genomes \<and>
     length (df_cells M) = length (df_index M)"
    by (rule matrix_shape[where search = scenario_search, OF listing_id scenario_good_genomes scenario_good_markers
          scenario_good_reports])
qed

text \<open>
  C1 as stated fails: one genome, one marker and a report without hits give a matrix
  with the marker's column and no row.
\<close>

theorem matrix_shape_counterexample:
  "good_genomes [''genomes/A.faa''] \<and> good_markers [''markers/m1.hmm''] \<and>
   run id (\<lambda>m g. Some (Table [])) [''genomes/A.faa''] [''markers/m1.hmm'']
     = Inr \<lparr>df_index = [], df_columns = [''m1''], df_cells = []\<rparr> \<and>
   length (df_index \<lparr>df_index = [], df_columns = [''m1''], df_cells = []\<rparr>)
     \<noteq> length [''genomes/A.faa'']"
  by code_simp

section \<open>C2: the order of the columns\<close>

text \<open>
  C2. In every run that writes a matrix, the columns are first the markers of the marker
  input set that no genome's aggregated results hold, in marker-input order, then the
  markers the aggregated results hold, in the order first encountered; every cell of a
  column of the first group is 0 and every column of the second group has a cell greater
  than 0, so every zero-only column precedes every column with a nonzero entry.
\<close>

theorem column_order:
  assumes "run listdir search genomes markers = Inr M"
  shows "\<exists>dicts. aggregate listdir search genomes markers = Inr dicts \<and>
     df_columns M = absent_markers markers dicts @ observed_markers dicts \<and>
     (\<forall>j<length (absent_markers markers dicts). \<forall>row\<in>set (df_cells M). row ! j = Some 0) \<and>
     (\<forall>j<length (observed_markers dicts). \<exists>row\<in>set (df_cells M). \<exists>v.
          0 < v \<and> row ! (length (absent_markers markers dicts) + j) = Some v)"
proof -
  from run_InrD[OF assms] obtain dicts where ag: "aggregate listdir search genomes markers = Inr dicts"
    and gd: "good_dicts dicts" and M: "M = assemble dicts markers"
    by blast
  let ?A = "absent_markers markers dicts" and ?O = "observed_markers dicts"
  let ?F = "\<lambda>i c. Some (case lookup_fact dicts i c of None \<Rightarrow> 0 | Some v \<Rightarrow> v)"
  from assemble_good[OF gd, of markers] obtain idx where
    idx: "set idx = fst ` set dicts" and
    A: "assemble dicts markers =
       \<lparr>df_index = idx, df_columns = ?A @ ?O, df_cells = map (\<lambda>i. map (?F i) (?A @ ?O)) idx\<rparr>"
    unfolding all_cols_absent by blast
  have cols: "df_columns M = ?A @ ?O" unfolding M A by simp
  have cells: "df_cells M = map (\<lambda>i. map (?F i) (?A @ ?O)) idx" unfolding M A by simp
  have zero: "\<forall>j<length ?A. \<forall>row\<in>set (df_cells M). row ! j = Some 0"
  proof (intro allI impI ballI)
    fix j row assume j: "j < length ?A" and "row \<in> set (df_cells M)"
    then obtain i where row: "row = map (?F i) (?A @ ?O)" unfolding cells by auto
    have "?A ! j \<in> set ?A" using j by simp
    then have no: "?A ! j \<notin> set ?O" by (simp add: absent_markers_def)
    have "lookup_fact dicts i (?A ! j) = None"
    proof (rule ccontr)
      assume "lookup_fact dicts i (?A ! j) \<noteq> None"
      then obtain v where "lookup_fact dicts i (?A ! j) = Some v" by auto
      from lookup_fact_SomeD[OF this] have "?A ! j \<in> set ?O"
        unfolding set_observed_markers by force
      then show False using no by simp
    qed
    then show "row ! j = Some 0" using j row by (simp add: nth_append)
  qed
  have nonzero: "\<forall>j<length ?O. \<exists>row\<in>set (df_cells M). \<exists>v. 0 < v \<and> row ! (length ?A + j) = Some v"
  proof (intro allI impI)
    fix j assume j: "j < length ?O"
    then have "?O ! j \<in> set ?O" by simp
    then obtain g d where gd': "(g, d) \<in> set dicts" "?O ! j \<in> fst ` set d"
      unfolding set_observed_markers by auto
    then obtain v where cv: "(?O ! j, v) \<in> set d" by auto
    have dd: "distinct (map fst dicts)" "distinct (map fst d)"
      using gd gd'(1) by (auto simp: good_dicts_def)
    have lk: "lookup_fact dicts g (?O ! j) = Some v"
      by (rule lookup_fact_SomeI[OF dd(1) gd'(1) dd(2) cv])
    have pos: "0 < v" using good_dicts_positive[OF gd lk] by simp
    have "g \<in> set idx" using idx gd'(1) by (metis fst_conv imageI)
    then have "map (?F g) (?A @ ?O) \<in> set (df_cells M)" unfolding cells set_map by (rule imageI)
    moreover have "map (?F g) (?A @ ?O) ! (length ?A + j) = Some v"
      using j lk by (simp add: nth_append)
    ultimately show "\<exists>row\<in>set (df_cells M). \<exists>v. 0 < v \<and> row ! (length ?A + j) = Some v"
      using pos by blast
  qed
  show ?thesis using ag cols zero nonzero by blast
qed

theorem column_order_witness:
  "run id scenario_search scenario_genomes scenario_markers = Inr scenario_frame \<and>
   (\<exists>dicts. aggregate id scenario_search scenario_genomes scenario_markers = Inr dicts \<and>
     df_columns scenario_frame = absent_markers scenario_markers dicts @ observed_markers dicts \<and>
     (\<forall>j<length (absent_markers scenario_markers dicts).
         \<forall>row\<in>set (df_cells scenario_frame). row ! j = Some 0) \<and>
     (\<forall>j<length (observed_markers dicts). \<exists>row\<in>set (df_cells scenario_frame). \<exists>v.
          0 < v \<and> row ! (length (absent_markers scenario_markers dicts) + j) = Some v))"
proof (intro conjI)
  show "run id scenario_search scenario_genomes scenario_markers = Inr scenario_frame"
    by (rule scenario_run)
  show "\<exists>dicts. aggregate id scenario_search scenario_genomes scenario_markers = Inr dicts \<and>
     df_columns scenario_frame = absent_markers scenario_markers dicts @ observed_markers dicts \<and>
     (\<forall>j<length (absent_markers scenario_markers dicts).
         \<forall>row\<in>set (df_cells scenario_frame). row ! j = Some 0) \<and>
     (\<forall>j<length (observed_markers dicts). \<exists>row\<in>set (df_cells scenario_frame). \<exists>v.
          0 < v \<and> row ! (length (absent_markers scenario_markers dicts) + j) = Some v)"
    by (rule column_order[OF scenario_run])
qed

section \<open>C3: the cells of the matrix\<close>

text \<open>
  C3 (as amended). On good inputs, for every genome g and marker m that were searched:
  when g has at least one hit for some marker, the cell (g, m) is the number of hits the
  search reported for that pair (0 when it reported none or left no report); when g has
  no hit at all, the matrix has no row for g and so no cell (g, m).
\<close>

theorem cell_counts:
  assumes "listing listdir" and "good_genomes genomes" and "good_markers markers"
    and "good_reports search genomes markers"
    and "g \<in> set genomes" and "m \<in> set markers"
  shows "\<exists>M. run listdir search genomes markers = Inr M \<and>
     cell M (name_of g) (col_prot m) =
       (if \<exists>m'\<in>set markers. 0 < hit_count (search m' g) then Some (hit_count (search m g))
        else None)"
proof -
  from run_good[OF assms(1-4)] obtain dicts idx where
    X: "aggregate listdir search genomes markers = Inr dicts \<and>
     run listdir search genomes markers =
       Inr \<lparr>df_index = idx, df_columns = all_cols markers (observed_markers dicts),
            df_cells = map (\<lambda>i. map (\<lambda>c. Some (case lookup_fact dicts i c of None \<Rightarrow> 0 | Some v \<Rightarrow> v))
                               (all_cols markers (observed_markers dicts))) idx\<rparr> \<and>
     distinct idx \<and>
     set idx = {name_of g | g. g \<in> set genomes \<and> (\<exists>m\<in>set markers. 0 < hit_count (search m g))} \<and>
     distinct (observed_markers dicts) \<and>
     set (observed_markers dicts) \<subseteq> col_prot ` set markers \<and>
     (\<forall>g\<in>set genomes. \<forall>m\<in>set markers. lookup_fact dicts (name_of g) (col_prot m) =
        (if 0 < hit_count (search m g) then Some (hit_count (search m g)) else None))"
    by (elim exE)
  have r: "run listdir search genomes markers =
       Inr \<lparr>df_index = idx, df_columns = all_cols markers (observed_markers dicts),
            df_cells = map (\<lambda>i. map (\<lambda>c. Some (case lookup_fact dicts i c of None \<Rightarrow> 0 | Some v \<Rightarrow> v))
                               (all_cols markers (observed_markers dicts))) idx\<rparr>"
    using X by (elim conjE)
  have di: "distinct idx" using X by (elim conjE)
  have si: "set idx = {name_of g | g. g \<in> set genomes \<and> (\<exists>m\<in>set markers. 0 < hit_count (search m g))}"
    using X by (elim conjE)
  have dob: "distinct (observed_markers dicts)" using X by (elim conjE)
  have so: "set (observed_markers dicts) \<subseteq> col_prot ` set markers" using X by (elim conjE)
  have c4: "\<forall>g\<in>set genomes. \<forall>m\<in>set markers. lookup_fact dicts (name_of g) (col_prot m) =
        (if 0 < hit_count (search m g) then Some (hit_count (search m g)) else None)"
    using X by (elim conjE)
  let ?cols = "all_cols markers (observed_markers dicts)"
  let ?M = "\<lparr>df_index = idx, df_columns = ?cols,
            df_cells = map (\<lambda>i. map (\<lambda>c. Some (case lookup_fact dicts i c of None \<Rightarrow> 0 | Some v \<Rightarrow> v))
                               ?cols) idx\<rparr>"
  have inj: "inj_on name_of (set genomes)"
    using assms(2) by (simp add: good_genomes_def distinct_map)
  have row: "name_of g \<in> set idx \<longleftrightarrow> (\<exists>m'\<in>set markers. 0 < hit_count (search m' g))"
  proof
    assume "name_of g \<in> set idx"
    then obtain g' where g': "g' \<in> set genomes" "name_of g = name_of g'"
      "\<exists>m\<in>set markers. 0 < hit_count (search m g')" using si by auto
    then have "g' = g" using inj assms(5) by (metis inj_onD)
    then show "\<exists>m'\<in>set markers. 0 < hit_count (search m' g)" using g'(3) by simp
  next
    assume "\<exists>m'\<in>set markers. 0 < hit_count (search m' g)"
    then show "name_of g \<in> set idx" using si assms(5) by auto
  qed
  have col: "col_prot m \<in> set ?cols" using assms(6) by (auto simp: all_cols_def)
  have lk: "(case lookup_fact dicts (name_of g) (col_prot m) of None \<Rightarrow> 0 | Some v \<Rightarrow> v)
      = hit_count (search m g)"
    using c4 assms(5,6) hit_count_nonneg[of "search m g"] by auto
  have "cell ?M (name_of g) (col_prot m) =
       (if name_of g \<in> set idx then Some (hit_count (search m g)) else None)"
    using col lk by (simp add: cell_def map_of_zip_map)
  then show ?thesis using r row by simp
qed

theorem cell_counts_witness:
  "listing id \<and> good_genomes scenario_genomes \<and> good_markers scenario_markers \<and>
   good_reports scenario_search scenario_genomes scenario_markers \<and>
   ''genomes/A.faa'' \<in> set scenario_genomes \<and> ''markers/m1.hmm'' \<in> set scenario_markers \<and>
   (\<exists>M. run id scenario_search scenario_genomes scenario_markers = Inr M \<and>
     cell M (name_of ''genomes/A.faa'') (col_prot ''markers/m1.hmm'') =
       (if \<exists>m'\<in>set scenario_markers. 0 < hit_count (scenario_search m' ''genomes/A.faa'')
        then Some (hit_count (scenario_search ''markers/m1.hmm'' ''genomes/A.faa''))
        else None))"
proof -
  have g: "''genomes/A.faa'' \<in> set scenario_genomes" by (simp add: scenario_genomes_def)
  have m: "''markers/m1.hmm'' \<in> set scenario_markers" by (simp add: scenario_markers_def)
  show ?thesis
  proof (intro conjI)
    show "listing id" by (rule listing_id)
    show "good_genomes scenario_genomes" by (rule scenario_good_genomes)
    show "good_markers scenario_markers" by (rule scenario_good_markers)
    show "good_reports scenario_search scenario_genomes scenario_markers"
      by (rule scenario_good_reports)
    show "''genomes/A.faa'' \<in> set scenario_genomes" by (rule g)
    show "''markers/m1.hmm'' \<in> set scenario_markers" by (rule m)
    show "\<exists>M. run id scenario_search scenario_genomes scenario_markers = Inr M \<and>
     cell M (name_of ''genomes/A.faa'') (col_prot ''markers/m1.hmm'') =
       (if \<exists>m'\<in>set scenario_markers. 0 < hit_count (scenario_search m' ''genomes/A.faa'')
        then Some (hit_count (scenario_search ''markers/m1.hmm'' ''genomes/A.faa''))
        else None)"
      by (rule cell_counts[where search = scenario_search, OF listing_id scenario_good_genomes scenario_good_markers
            scenario_good_reports g m])
  qed
qed

text \<open>
  C3 as stated fails: genome B was searched against m1 and has no hit; the matrix has no
  row for B, so the cell (B, m1) is not 0 but missing.
\<close>

theorem cell_counts_counterexample:
  "run id (\<lambda>m g. if g = ''genomes/A.faa'' then Some (Table [(''seqA1'', ''m1''), (''seqA2'', ''m1'')])
                  else Some (Table []))
     [''genomes/A.faa'', ''genomes/B.faa''] [''markers/m1.hmm'']
     = Inr \<lparr>df_index = [''A''], df_columns = [''m1''], df_cells = [[Some 2]]\<rparr> \<and>
   name_of ''genomes/B.faa'' = ''B'' \<and> col_prot ''markers/m1.hmm'' = ''m1'' \<and>
   cell \<lparr>df_index = [''A''], df_columns = [''m1''], df_cells = [[Some 2]]\<rparr> ''B'' ''m1'' = None \<and>
   cell \<lparr>df_index = [''A''], df_columns = [''m1''], df_cells = [[Some 2]]\<rparr> ''B'' ''m1'' \<noteq> Some 0"
  by code_simp

section \<open>C4: a malformed report\<close>

lemma parse_files_malformed:
  assumes "f \<in> set L" "file_genome f = Inr n"
    and "map_of (fs_files fs) (result_path n f) = Some Malformed"
  shows "\<exists>e. parse_files fs ref L a = Inl e"
  using assms(1)
proof (induction L arbitrary: a)
  case Nil
  then show ?case by simp
next
  case (Cons f' L)
  show ?case
  proof (cases "f' = f")
    case True
    then show ?thesis using assms(2,3)
      by (auto simp: searchio_parse_def split: sum.splits)
  next
    case False
    then have "f \<in> set L" using Cons.prems by simp
    then have "\<exists>e. parse_files fs ref L a1 = Inl e" for a1 by (rule Cons.IH)
    then show ?thesis by (auto split: sum.splits option.splits)
  qed
qed

lemma parse_dirs_malformed:
  assumes "L \<in> set Ls" "f \<in> set L" "file_genome f = Inr n"
    and "map_of (fs_files fs) (result_path n f) = Some Malformed"
  shows "\<exists>e. parse_dirs fs Ls a = Inl e"
  using assms(1)
proof (induction Ls arbitrary: a)
  case Nil
  then show ?case by simp
next
  case (Cons L' Ls)
  show ?case
  proof (cases "L' = L")
    case True
    from parse_files_malformed[OF assms(2,3,4)]
    obtain e where "parse_files fs (length (objs a)) L (a\<lparr>objs := objs a @ [[]]\<rparr>) = Inl e"
      by blast
    then show ?thesis using True by simp
  next
    case False
    then have "L \<in> set Ls" using Cons.prems by simp
    then have "\<exists>e. parse_dirs fs Ls a1 = Inl e" for a1 by (rule Cons.IH)
    then show ?thesis by (auto split: sum.splits)
  qed
qed

text \<open>
  C4 (as amended). On inputs with good identifiers, when the report of one searched pair
  is malformed the parse error is not caught: the whole run ends with an error and no
  matrix is written, whatever the other reports hold.
\<close>

theorem malformed_report_aborts_run:
  assumes ls: "listing listdir" and gg: "good_genomes genomes" and gm: "good_markers markers"
    and g: "g \<in> set genomes" and m: "m \<in> set markers" and bad: "search m g = Some Malformed"
  shows "\<exists>e. run listdir search genomes markers = Inl e"
proof -
  have names: "\<forall>g\<in>set genomes. genome_name g = Inr (name_of g) \<and> CHR ''-'' \<notin> set (name_of g) \<and>
              name_of g \<noteq> ''.'' \<and> name_of g \<noteq> ''..''"
    using good_genomes_names[OF gg] by blast
  have dn: "distinct (map name_of genomes)" using gg by (simp add: good_genomes_def)
  have mp: "\<forall>m\<in>set markers. marker_prot m = Inr (col_prot m)" and dm: "distinct (map col_prot markers)"
    using gm by (simp_all add: good_markers_def)
  have e0: "\<forall>g\<in>set genomes. name_of g \<notin> fst ` set (fs_dirs empty_fs)" by (simp add: empty_fs_def)
  from run_hmms_good[OF names dn e0 mp dm, of search]
  obtain fs where X: "run_hmms search genomes markers empty_fs = Inr fs \<and>
      fs_dirs fs = fs_dirs empty_fs @ map (\<lambda>g. (name_of g, dir_entries search g markers)) genomes \<and>
      (\<forall>g\<in>set genomes. \<forall>m\<in>set markers. map_of (fs_files fs) (outname (name_of g) (col_prot m)) =
          (case search m g of None \<Rightarrow> map_of (fs_files empty_fs) (outname (name_of g) (col_prot m))
            | Some r \<Rightarrow> Some r)) \<and>
      (\<forall>p. (\<forall>g\<in>set genomes. \<forall>m\<in>set markers. p \<noteq> outname (name_of g) (col_prot m)) \<longrightarrow>
          map_of (fs_files fs) p = map_of (fs_files empty_fs) p)" ..
  have rh: "run_hmms search genomes markers empty_fs = Inr fs" using X by (elim conjE)
  have dirs: "fs_dirs fs = map (\<lambda>g. (name_of g, dir_entries search g markers)) genomes"
    using X by (simp add: empty_fs_def)
  have f1: "\<forall>g\<in>set genomes. \<forall>m\<in>set markers. map_of (fs_files fs) (outname (name_of g) (col_prot m)) =
          (case search m g of None \<Rightarrow> map_of (fs_files empty_fs) (outname (name_of g) (col_prot m))
            | Some r \<Rightarrow> Some r)"
    using X by (elim conjE)
  let ?n = "name_of g" and ?f = "report_file (name_of g) (col_prot m)"
  have content: "map_of (fs_files fs) (result_path ?n ?f) = Some Malformed"
    using f1 g m bad by (simp add: result_path_def outname_def)
  have fg: "file_genome ?f = Inr ?n"
    using names g by (simp add: file_genome_report_file)
  have "mset (listdir (dir_entries search g markers)) = mset (dir_entries search g markers)"
    using ls by (simp add: listing_def)
  then have "set (listdir (dir_entries search g markers)) = set (dir_entries search g markers)"
    by (rule mset_eq_setD)
  moreover have "?f \<in> set (dir_entries search g markers)"
    using m bad by (auto simp: dir_entries_def)
  ultimately have fin: "?f \<in> set (listdir (dir_entries search g markers))" by simp
  have "mset (listdir (map name_of genomes)) = mset (map name_of genomes)"
    using ls by (simp add: listing_def)
  then have "set (listdir (map name_of genomes)) = set (map name_of genomes)"
    by (rule mset_eq_setD)
  then have nin: "?n \<in> set (listdir (map name_of genomes))" using g by simp
  have mo: "map_of (fs_dirs fs) ?n = Some (dir_entries search g markers)"
    unfolding dirs by (rule map_of_map_key[OF dn g])
  have "(case map_of (fs_dirs fs) ?n of None \<Rightarrow> [] | Some entries \<Rightarrow> listdir entries)
      \<in> set (os_walk listdir fs)"
    using nin unfolding os_walk_def dirs by (simp add: comp_def)
  then have Lin: "listdir (dir_entries search g markers) \<in> set (os_walk listdir fs)"
    using mo by simp
  from parse_dirs_malformed[OF Lin fin fg content]
  obtain e where "parse_dirs fs (os_walk listdir fs) empty_agg = Inl e" by blast
  then have "run listdir search genomes markers = Inl e"
    using rh by (simp add: run_def aggregate_def parse_results_def)
  then show ?thesis by blast
qed

theorem malformed_report_aborts_run_witness:
  "listing id \<and> good_genomes scenario_genomes \<and> good_markers scenario_markers \<and>
   ''genomes/B.faa'' \<in> set scenario_genomes \<and> ''markers/m2.hmm'' \<in> set scenario_markers \<and>
   broken_search ''markers/m2.hmm'' ''genomes/B.faa'' = Some Malformed \<and>
   (\<exists>e. run id broken_search scenario_genomes scenario_markers = Inl e)"
proof -
  have g: "''genomes/B.faa'' \<in> set scenario_genomes" by (simp add: scenario_genomes_def)
  have m: "''markers/m2.hmm'' \<in> set scenario_markers" by (simp add: scenario_markers_def)
  have b: "broken_search ''markers/m2.hmm'' ''genomes/B.faa'' = Some Malformed"
    by (simp add: broken_search_def)
  show ?thesis
  proof (intro conjI)
    show "listing id" by (rule listing_id)
    show "good_genomes scenario_genomes" by (rule scenario_good_genomes)
    show "good_markers scenario_markers" by (rule scenario_good_markers)
    show "''genomes/B.faa'' \<in> set scenario_genomes" by (rule g)
    show "''markers/m2.hmm'' \<in> set scenario_markers" by (rule m)
    show "broken_search ''markers/m2.hmm'' ''genomes/B.faa'' = Some Malformed" by (rule b)
    show "\<exists>e. run id broken_search scenario_genomes scenario_markers = Inl e"
      by (rule malformed_report_aborts_run[where search = broken_search, OF listing_id scenario_good_genomes
            scenario_good_markers g m b])
  qed
qed

text \<open>
  C4 as stated fails: the report of (A, m1) holds a hit and the report of (B, m1) is
  malformed; the run ends with ValueError and writes no matrix, so the result of (A, m1)
  is lost.
\<close>

theorem malformed_report_counterexample:
  "run id (\<lambda>m g. if g = ''genomes/A.faa'' then Some (Table [(''seqA1'', ''m1'')]) else Some Malformed)
     [''genomes/A.faa'', ''genomes/B.faa''] [''markers/m1.hmm''] = Inl ValueError \<and>
   run id (\<lambda>m g. Some (Table [(''seqA1'', ''m1'')])) [''genomes/A.faa''] [''markers/m1.hmm'']
     = Inr \<lparr>df_index = [''A''], df_columns = [''m1''], df_cells = [[Some 1]]\<rparr>"
  by code_simp

section \<open>C5: a report without hits\<close>

text \<open>
  C5 (as amended). On good inputs, a searched pair whose report holds no hit leaves no
  count in the aggregated dictionaries: the pair is absent from them (the 0 of its cell
  comes from line 68, when the genome has a row).
\<close>

theorem zero_hits_leave_no_fact:
  assumes "listing listdir" and "good_genomes genomes" and "good_markers markers"
    and "good_reports search genomes markers"
    and "g \<in> set genomes" and "m \<in> set markers" and "hit_count (search m g) = 0"
  shows "\<exists>dicts. aggregate listdir search genomes markers = Inr dicts \<and>
     lookup_fact dicts (name_of g) (col_prot m) = None"
proof -
  from run_good[OF assms(1-4)] obtain dicts idx where
    X: "aggregate listdir search genomes markers = Inr dicts \<and>
     run listdir search genomes markers =
       Inr \<lparr>df_index = idx, df_columns = all_cols markers (observed_markers dicts),
            df_cells = map (\<lambda>i. map (\<lambda>c. Some (case lookup_fact dicts i c of None \<Rightarrow> 0 | Some v \<Rightarrow> v))
                               (all_cols markers (observed_markers dicts))) idx\<rparr> \<and>
     distinct idx \<and>
     set idx = {name_of g | g. g \<in> set genomes \<and> (\<exists>m\<in>set markers. 0 < hit_count (search m g))} \<and>
     distinct (observed_markers dicts) \<and>
     set (observed_markers dicts) \<subseteq> col_prot ` set markers \<and>
     (\<forall>g\<in>set genomes. \<forall>m\<in>set markers. lookup_fact dicts (name_of g) (col_prot m) =
        (if 0 < hit_count (search m g) then Some (hit_count (search m g)) else None))"
    by (elim exE)
  have ag: "aggregate listdir search genomes markers = Inr dicts" using X by (elim conjE)
  have c4: "\<forall>g\<in>set genomes. \<forall>m\<in>set markers. lookup_fact dicts (name_of g) (col_prot m) =
        (if 0 < hit_count (search m g) then Some (hit_count (search m g)) else None)"
    using X by (elim conjE)
  have "lookup_fact dicts (name_of g) (col_prot m) = None" using c4 assms(5,6,7) by simp
  then show ?thesis using ag by blast
qed

theorem zero_hits_leave_no_fact_witness:
  "listing id \<and> good_genomes scenario_genomes \<and> good_markers scenario_markers \<and>
   good_reports scenario_search scenario_genomes scenario_markers \<and>
   ''genomes/A.faa'' \<in> set scenario_genomes \<and> ''markers/m2.hmm'' \<in> set scenario_markers \<and>
   hit_count (scenario_search ''markers/m2.hmm'' ''genomes/A.faa'') = 0 \<and>
   (\<exists>dicts. aggregate id scenario_search scenario_genomes scenario_markers = Inr dicts \<and>
     lookup_fact dicts (name_of ''genomes/A.faa'') (col_prot ''markers/m2.hmm'') = None)"
proof -
  have g: "''genomes/A.faa'' \<in> set scenario_genomes" by (simp add: scenario_genomes_def)
  have m: "''markers/m2.hmm'' \<in> set scenario_markers" by (simp add: scenario_markers_def)
  have z: "hit_count (scenario_search ''markers/m2.hmm'' ''genomes/A.faa'') = 0"
    by (simp add: scenario_search_def hit_count_def)
  show ?thesis
  proof (intro conjI)
    show "listing id" by (rule listing_id)
    show "good_genomes scenario_genomes" by (rule scenario_good_genomes)
    show "good_markers scenario_markers" by (rule scenario_good_markers)
    show "good_reports scenario_search scenario_genomes scenario_markers"
      by (rule scenario_good_reports)
    show "''genomes/A.faa'' \<in> set scenario_genomes" by (rule g)
    show "''markers/m2.hmm'' \<in> set scenario_markers" by (rule m)
    show "hit_count (scenario_search ''markers/m2.hmm'' ''genomes/A.faa'') = 0" by (rule z)
    show "\<exists>dicts. aggregate id scenario_search scenario_genomes scenario_markers = Inr dicts \<and>
     lookup_fact dicts (name_of ''genomes/A.faa'') (col_prot ''markers/m2.hmm'') = None"
      by (rule zero_hits_leave_no_fact[where search = scenario_search, OF listing_id scenario_good_genomes scenario_good_markers
            scenario_good_reports g m z])
  qed
qed

text \<open>
  C5 as stated fails: the report of (A, m2) holds no hit, and the aggregated dictionaries
  hold the count of (A, m1) only; there is no count 0 for (A, m2).
\<close>

theorem zero_hits_counterexample:
  "aggregate id (\<lambda>m g. if m = ''markers/m1.hmm'' then Some (Table [(''seqA1'', ''m1'')])
                        else Some (Table []))
     [''genomes/A.faa''] [''markers/m1.hmm'', ''markers/m2.hmm'']
     = Inr [(''A'', [(''m1'', 1)])] \<and>
   lookup_fact [(''A'', [(''m1'', 1)])] ''A'' ''m2'' = None \<and>
   lookup_fact [(''A'', [(''m1'', 1)])] ''A'' ''m2'' \<noteq> Some 0"
  by code_simp

section \<open>C6: every cell is a count\<close>

text \<open>
  C6. In every run that writes a matrix, the matrix has one row of cells per row label,
  every row has one cell per column, and every cell is defined and holds a non-negative
  integer.
\<close>

theorem cells_defined_nonnegative:
  assumes "run listdir search genomes markers = Inr M"
  shows "length (df_cells M) = length (df_index M) \<and>
         (\<forall>row\<in>set (df_cells M). length row = length (df_columns M) \<and>
            (\<forall>x\<in>set row. \<exists>v. x = Some v \<and> 0 \<le> v))"
proof -
  from run_InrD[OF assms] obtain dicts where gd: "good_dicts dicts" and M: "M = assemble dicts markers"
    by blast
  from assemble_good[OF gd, of markers] obtain idx where
    A: "assemble dicts markers =
       \<lparr>df_index = idx,
        df_columns = all_cols markers (observed_markers dicts),
        df_cells = map (\<lambda>i. map (\<lambda>c. Some (case lookup_fact dicts i c of None \<Rightarrow> 0 | Some v \<Rightarrow> v))
                               (all_cols markers (observed_markers dicts))) idx\<rparr>"
    by blast
  have nn: "0 \<le> (case lookup_fact dicts i c of None \<Rightarrow> 0 | Some v \<Rightarrow> v)" for i c
    using good_dicts_positive[OF gd, of i c] by (cases "lookup_fact dicts i c") auto
  show ?thesis unfolding M A using nn by auto
qed

theorem cells_defined_nonnegative_witness:
  "run id scenario_search scenario_genomes scenario_markers = Inr scenario_frame \<and>
   length (df_cells scenario_frame) = length (df_index scenario_frame) \<and>
   list_all (\<lambda>row. length row = length (df_columns scenario_frame) \<and>
                    list_all (\<lambda>x. \<exists>v. x = Some v \<and> 0 \<le> v) row) (df_cells scenario_frame)"
proof -
  note t = cells_defined_nonnegative[OF scenario_run]
  have 1: "length (df_cells scenario_frame) = length (df_index scenario_frame)"
    using t by (rule conjunct1)
  have "\<forall>row\<in>set (df_cells scenario_frame). length row = length (df_columns scenario_frame) \<and>
            (\<forall>x\<in>set row. \<exists>v. x = Some v \<and> 0 \<le> v)"
    using t by (rule conjunct2)
  then have 2: "list_all (\<lambda>row. length row = length (df_columns scenario_frame) \<and>
                    list_all (\<lambda>x. \<exists>v. x = Some v \<and> 0 \<le> v) row) (df_cells scenario_frame)"
    by (simp add: list_all_iff)
  show ?thesis using scenario_run 1 2 by (intro conjI)
qed

section \<open>C7: the run is a function of its inputs and of their enumeration order\<close>

lemma search_markers_cong:
  "\<forall>m\<in>set markers. search m genome = search' m genome \<Longrightarrow>
     search_markers search genome name markers fs = search_markers search' genome name markers fs"
  by (induction markers arbitrary: fs) (auto split: sum.splits)

lemma run_hmms_cong:
  "\<forall>g\<in>set genomes. \<forall>m\<in>set markers. search m g = search' m g \<Longrightarrow>
     run_hmms search genomes markers fs = run_hmms search' genomes markers fs"
proof (induction genomes arbitrary: fs)
  case Nil
  then show ?case by simp
next
  case (Cons g genomes)
  have "search_markers search g name markers fs1 = search_markers search' g name markers fs1"
    for name fs1
    by (rule search_markers_cong) (use Cons.prems in simp)
  moreover have "run_hmms search genomes markers fs2 = run_hmms search' genomes markers fs2" for fs2
    by (rule Cons.IH) (use Cons.prems in simp)
  ultimately show ?case by (simp split: sum.splits)
qed

lemma listing_rev: "listing rev"
  by (simp add: listing_def)

lemma good_genomes_perm:
  assumes "good_genomes genomes" "mset genomes' = mset genomes"
  shows "good_genomes genomes'"
proof -
  have s: "set genomes' = set genomes" using assms(2) by (rule mset_eq_setD)
  have "mset (map name_of genomes') = mset (map name_of genomes)"
    using assms(2) by (metis mset_map)
  then have "distinct (map name_of genomes') = distinct (map name_of genomes)"
    by (rule mset_eq_imp_distinct_iff)
  then show ?thesis using assms(1) s by (simp add: good_genomes_def)
qed

lemma good_markers_perm:
  assumes "good_markers markers" "mset markers' = mset markers"
  shows "good_markers markers'"
proof -
  have s: "set markers' = set markers" using assms(2) by (rule mset_eq_setD)
  have "mset (map col_prot markers') = mset (map col_prot markers)"
    using assms(2) by (metis mset_map)
  then have "distinct (map col_prot markers') = distinct (map col_prot markers)"
    by (rule mset_eq_imp_distinct_iff)
  then show ?thesis using assms(1) s by (simp add: good_markers_def)
qed

lemma good_reports_cong:
  assumes "good_reports search genomes markers"
    and "set genomes' = set genomes" and "set markers' = set markers"
    and "\<forall>g\<in>set genomes. \<forall>m\<in>set markers. search m g = search' m g"
  shows "good_reports search' genomes' markers'"
  using assms by (simp add: good_reports_def)

text \<open>The matrix of a run on good inputs, read by labels.\<close>

lemma run_good_cells:
  assumes ls: "listing listdir" and gg: "good_genomes genomes" and gm: "good_markers markers"
    and gr: "good_reports search genomes markers"
  shows "\<exists>M. run listdir search genomes markers = Inr M \<and>
     distinct (df_index M) \<and>
     set (df_index M) =
       {name_of g | g. g \<in> set genomes \<and> (\<exists>m\<in>set markers. 0 < hit_count (search m g))} \<and>
     distinct (df_columns M) \<and>
     set (df_columns M) = col_prot ` set markers \<and>
     (\<forall>g\<in>set genomes. \<forall>m\<in>set markers. name_of g \<in> set (df_index M) \<longrightarrow>
        cell M (name_of g) (col_prot m) = Some (hit_count (search m g))) \<and>
     (\<forall>i c. i \<notin> set (df_index M) \<or> c \<notin> set (df_columns M) \<longrightarrow> cell M i c = None)"
proof -
  from run_good[OF assms] obtain dicts idx where
    X: "aggregate listdir search genomes markers = Inr dicts \<and>
     run listdir search genomes markers =
       Inr \<lparr>df_index = idx, df_columns = all_cols markers (observed_markers dicts),
            df_cells = map (\<lambda>i. map (\<lambda>c. Some (case lookup_fact dicts i c of None \<Rightarrow> 0 | Some v \<Rightarrow> v))
                               (all_cols markers (observed_markers dicts))) idx\<rparr> \<and>
     distinct idx \<and>
     set idx = {name_of g | g. g \<in> set genomes \<and> (\<exists>m\<in>set markers. 0 < hit_count (search m g))} \<and>
     distinct (observed_markers dicts) \<and>
     set (observed_markers dicts) \<subseteq> col_prot ` set markers \<and>
     (\<forall>g\<in>set genomes. \<forall>m\<in>set markers. lookup_fact dicts (name_of g) (col_prot m) =
        (if 0 < hit_count (search m g) then Some (hit_count (search m g)) else None))"
    by (elim exE)
  let ?cols = "all_cols markers (observed_markers dicts)"
  let ?M = "\<lparr>df_index = idx, df_columns = ?cols,
            df_cells = map (\<lambda>i. map (\<lambda>c. Some (case lookup_fact dicts i c of None \<Rightarrow> 0 | Some v \<Rightarrow> v))
                               ?cols) idx\<rparr>"
  have r: "run listdir search genomes markers = Inr ?M"
    using X by (elim conjE)
  have di: "distinct idx" using X by (elim conjE)
  have si: "set idx = {name_of g | g. g \<in> set genomes \<and> (\<exists>m\<in>set markers. 0 < hit_count (search m g))}"
    using X by (elim conjE)
  have dob: "distinct (observed_markers dicts)" using X by (elim conjE)
  have so: "set (observed_markers dicts) \<subseteq> col_prot ` set markers" using X by (elim conjE)
  have c4: "\<forall>g\<in>set genomes. \<forall>m\<in>set markers. lookup_fact dicts (name_of g) (col_prot m) =
        (if 0 < hit_count (search m g) then Some (hit_count (search m g)) else None)"
    using X by (elim conjE)
  have dp: "distinct (map col_prot markers)" using gm by (simp add: good_markers_def)
  have dc: "distinct ?cols" using dp dob by (auto simp: all_cols_def)
  have sc: "set ?cols = col_prot ` set markers" using so by (auto simp: all_cols_def)
  have cl: "cell ?M i c = (if i \<in> set idx \<and> c \<in> set ?cols
        then Some (case lookup_fact dicts i c of None \<Rightarrow> 0 | Some v \<Rightarrow> v) else None)" for i c
    by (simp add: cell_def map_of_zip_map)
  have lk: "(case lookup_fact dicts (name_of g) (col_prot m) of None \<Rightarrow> 0 | Some v \<Rightarrow> v)
      = hit_count (search m g)" if "g \<in> set genomes" "m \<in> set markers" for g m
    using c4 that hit_count_nonneg[of "search m g"] by auto
  have c5: "\<forall>g\<in>set genomes. \<forall>m\<in>set markers. name_of g \<in> set (df_index ?M) \<longrightarrow>
        cell ?M (name_of g) (col_prot m) = Some (hit_count (search m g))"
  proof (intro ballI impI)
    fix g m assume a: "g \<in> set genomes" "m \<in> set markers" "name_of g \<in> set (df_index ?M)"
    have "col_prot m \<in> set ?cols" using sc a(2) by simp
    then show "cell ?M (name_of g) (col_prot m) = Some (hit_count (search m g))"
      using a(3) lk[OF a(1,2)] unfolding cl by simp
  qed
  have c6: "\<forall>i c. i \<notin> set (df_index ?M) \<or> c \<notin> set (df_columns ?M) \<longrightarrow> cell ?M i c = None"
    unfolding cl by simp
  have "run listdir search genomes markers = Inr ?M \<and>
     distinct (df_index ?M) \<and>
     set (df_index ?M) =
       {name_of g | g. g \<in> set genomes \<and> (\<exists>m\<in>set markers. 0 < hit_count (search m g))} \<and>
     distinct (df_columns ?M) \<and>
     set (df_columns ?M) = col_prot ` set markers \<and>
     (\<forall>g\<in>set genomes. \<forall>m\<in>set markers. name_of g \<in> set (df_index ?M) \<longrightarrow>
        cell ?M (name_of g) (col_prot m) = Some (hit_count (search m g))) \<and>
     (\<forall>i c. i \<notin> set (df_index ?M) \<or> c \<notin> set (df_columns ?M) \<longrightarrow> cell ?M i c = None)"
    apply (intro conjI)
          apply (rule r)
         apply (simp add: di)
        apply (simp add: si)
       apply (simp add: dc)
      apply (simp add: sc)
     apply (rule c5)
    apply (rule c6)
    done
  then show ?thesis by (rule exI)
qed

lemma scenario_run_rev_genomes:
  "run id scenario_search (rev scenario_genomes) scenario_markers = Inr reordered_frame"
  by code_simp

lemma scenario_run_rev_listdir:
  "run rev scenario_search scenario_genomes scenario_markers = Inr reordered_frame"
  by code_simp

lemma frames_differ: "reordered_frame \<noteq> scenario_frame"
  by (simp add: reordered_frame_def scenario_frame_def)

text \<open>
  C7 (as amended). Two runs in which the genome files and the marker files are enumerated
  in the same order, the directories are listed in the same order and the searches report
  the same for every searched pair give the same result: the same matrix, with the same
  row order, column order and cells (or the same error). When only the sets are the same
  (the files are enumerated, or the directories listed, in another order), the two runs
  on good inputs write matrices with the same row labels, the same column labels and the
  same cell under every pair of labels; the order of the rows and of the columns follows
  the enumeration and may differ.
\<close>

theorem run_deterministic:
  assumes eq: "\<forall>g\<in>set genomes. \<forall>m\<in>set markers. search m g = search' m g"
  shows "run listdir search genomes markers = run listdir search' genomes markers \<and>
    (listing listdir \<and> listing listdir' \<and> good_genomes genomes \<and> good_markers markers \<and>
     good_reports search genomes markers \<and>
     mset genomes' = mset genomes \<and> mset markers' = mset markers \<longrightarrow>
       (\<exists>M M'. run listdir search genomes markers = Inr M \<and>
          run listdir' search' genomes' markers' = Inr M' \<and>
          distinct (df_index M) \<and> distinct (df_index M') \<and>
          set (df_index M') = set (df_index M) \<and>
          distinct (df_columns M) \<and> distinct (df_columns M') \<and>
          set (df_columns M') = set (df_columns M) \<and>
          (\<forall>i c. cell M' i c = cell M i c)))"
proof (rule conjI)
  show "run listdir search genomes markers = run listdir search' genomes markers"
    using run_hmms_cong[OF eq] by (simp add: run_def aggregate_def)
next
  show "listing listdir \<and> listing listdir' \<and> good_genomes genomes \<and> good_markers markers \<and>
     good_reports search genomes markers \<and>
     mset genomes' = mset genomes \<and> mset markers' = mset markers \<longrightarrow>
       (\<exists>M M'. run listdir search genomes markers = Inr M \<and>
          run listdir' search' genomes' markers' = Inr M' \<and>
          distinct (df_index M) \<and> distinct (df_index M') \<and>
          set (df_index M') = set (df_index M) \<and>
          distinct (df_columns M) \<and> distinct (df_columns M') \<and>
          set (df_columns M') = set (df_columns M) \<and>
          (\<forall>i c. cell M' i c = cell M i c))"
  proof
    assume H: "listing listdir \<and> listing listdir' \<and> good_genomes genomes \<and> good_markers markers \<and>
     good_reports search genomes markers \<and>
     mset genomes' = mset genomes \<and> mset markers' = mset markers"
    have ls: "listing listdir" using H by (elim conjE)
    have ls': "listing listdir'" using H by (elim conjE)
    have gg: "good_genomes genomes" using H by (elim conjE)
    have gm: "good_markers markers" using H by (elim conjE)
    have gr: "good_reports search genomes markers" using H by (elim conjE)
    have pg: "mset genomes' = mset genomes" using H by (elim conjE)
    have pm: "mset markers' = mset markers" using H by (elim conjE)
    have sg: "set genomes' = set genomes" using pg by (rule mset_eq_setD)
    have sm: "set markers' = set markers" using pm by (rule mset_eq_setD)
    have gg': "good_genomes genomes'" using gg pg by (rule good_genomes_perm)
    have gm': "good_markers markers'" using gm pm by (rule good_markers_perm)
    have gr': "good_reports search' genomes' markers'" using gr sg sm eq by (rule good_reports_cong)
    from run_good_cells[OF ls gg gm gr] obtain M where
      X: "run listdir search genomes markers = Inr M \<and>
     distinct (df_index M) \<and>
     set (df_index M) =
       {name_of g | g. g \<in> set genomes \<and> (\<exists>m\<in>set markers. 0 < hit_count (search m g))} \<and>
     distinct (df_columns M) \<and>
     set (df_columns M) = col_prot ` set markers \<and>
     (\<forall>g\<in>set genomes. \<forall>m\<in>set markers. name_of g \<in> set (df_index M) \<longrightarrow>
        cell M (name_of g) (col_prot m) = Some (hit_count (search m g))) \<and>
     (\<forall>i c. i \<notin> set (df_index M) \<or> c \<notin> set (df_columns M) \<longrightarrow> cell M i c = None)" ..
    from run_good_cells[OF ls' gg' gm' gr'] obtain M' where
      Y: "run listdir' search' genomes' markers' = Inr M' \<and>
     distinct (df_index M') \<and>
     set (df_index M') =
       {name_of g | g. g \<in> set genomes' \<and> (\<exists>m\<in>set markers'. 0 < hit_count (search' m g))} \<and>
     distinct (df_columns M') \<and>
     set (df_columns M') = col_prot ` set markers' \<and>
     (\<forall>g\<in>set genomes'. \<forall>m\<in>set markers'. name_of g \<in> set (df_index M') \<longrightarrow>
        cell M' (name_of g) (col_prot m) = Some (hit_count (search' m g))) \<and>
     (\<forall>i c. i \<notin> set (df_index M') \<or> c \<notin> set (df_columns M') \<longrightarrow> cell M' i c = None)" ..
    have r: "run listdir search genomes markers = Inr M" using X by (elim conjE)
    have di: "distinct (df_index M)" using X by (elim conjE)
    have si: "set (df_index M) =
       {name_of g | g. g \<in> set genomes \<and> (\<exists>m\<in>set markers. 0 < hit_count (search m g))}"
      using X by (elim conjE)
    have dc: "distinct (df_columns M)" using X by (elim conjE)
    have sc: "set (df_columns M) = col_prot ` set markers" using X by (elim conjE)
    have ce: "\<forall>g\<in>set genomes. \<forall>m\<in>set markers. name_of g \<in> set (df_index M) \<longrightarrow>
        cell M (name_of g) (col_prot m) = Some (hit_count (search m g))" using X by (elim conjE)
    have cn: "\<forall>i c. i \<notin> set (df_index M) \<or> c \<notin> set (df_columns M) \<longrightarrow> cell M i c = None"
      using X by (elim conjE)
    have r': "run listdir' search' genomes' markers' = Inr M'" using Y by (elim conjE)
    have di': "distinct (df_index M')" using Y by (elim conjE)
    have si': "set (df_index M') =
       {name_of g | g. g \<in> set genomes' \<and> (\<exists>m\<in>set markers'. 0 < hit_count (search' m g))}"
      using Y by (elim conjE)
    have dc': "distinct (df_columns M')" using Y by (elim conjE)
    have sc': "set (df_columns M') = col_prot ` set markers'" using Y by (elim conjE)
    have ce': "\<forall>g\<in>set genomes'. \<forall>m\<in>set markers'. name_of g \<in> set (df_index M') \<longrightarrow>
        cell M' (name_of g) (col_prot m) = Some (hit_count (search' m g))" using Y by (elim conjE)
    have cn': "\<forall>i c. i \<notin> set (df_index M') \<or> c \<notin> set (df_columns M') \<longrightarrow> cell M' i c = None"
      using Y by (elim conjE)
    have hc: "hit_count (search' m g) = hit_count (search m g)"
      if "g \<in> set genomes" "m \<in> set markers" for g m
      using eq that by simp
    have ie: "set (df_index M') = set (df_index M)"
    proof -
      have "(\<exists>m\<in>set markers. 0 < hit_count (search' m g)) \<longleftrightarrow>
            (\<exists>m\<in>set markers. 0 < hit_count (search m g))" if "g \<in> set genomes" for g
        using hc[OF that] by auto
      then have "{name_of g | g. g \<in> set genomes \<and> (\<exists>m\<in>set markers. 0 < hit_count (search' m g))} =
            {name_of g | g. g \<in> set genomes \<and> (\<exists>m\<in>set markers. 0 < hit_count (search m g))}"
        by blast
      then show ?thesis unfolding si si' sg sm .
    qed
    have cs: "set (df_columns M') = set (df_columns M)"
      unfolding sc sc' sm by (rule refl)
    have cells: "\<forall>i c. cell M' i c = cell M i c"
    proof (intro allI)
      fix i c
      show "cell M' i c = cell M i c"
      proof (cases "i \<in> set (df_index M) \<and> c \<in> set (df_columns M)")
        case True
        then obtain g where g: "g \<in> set genomes" "i = name_of g" using si by auto
        from True obtain m where m: "m \<in> set markers" "c = col_prot m" using sc by auto
        have "cell M i c = Some (hit_count (search m g))" using ce g m True by simp
        moreover have "cell M' i c = Some (hit_count (search' m g))"
          using ce' g m True ie sg sm by simp
        moreover have "search m g = search' m g" using eq g(1) m(1) by simp
        ultimately show ?thesis by simp
      next
        case False
        then have "cell M i c = None" using cn by blast
        moreover have "cell M' i c = None" using cn' False ie cs by blast
        ultimately show ?thesis by simp
      qed
    qed
    show "\<exists>M M'. run listdir search genomes markers = Inr M \<and>
          run listdir' search' genomes' markers' = Inr M' \<and>
          distinct (df_index M) \<and> distinct (df_index M') \<and>
          set (df_index M') = set (df_index M) \<and>
          distinct (df_columns M) \<and> distinct (df_columns M') \<and>
          set (df_columns M') = set (df_columns M) \<and>
          (\<forall>i c. cell M' i c = cell M i c)"
      apply (rule exI[of _ M])
      apply (rule exI[of _ M'])
      apply (intro conjI)
              apply (rule r)
             apply (rule r')
            apply (rule di)
           apply (rule di')
          apply (rule ie)
         apply (rule dc)
        apply (rule dc')
       apply (rule cs)
      apply (rule cells)
      done
  qed
qed

theorem run_deterministic_witness:
  "list_all (\<lambda>g. list_all (\<lambda>m. scenario_search m g =
       (if g = ''genomes/Z.faa'' then None else scenario_search m g)) scenario_markers)
     scenario_genomes \<and>
   listing id \<and> listing rev \<and> good_genomes scenario_genomes \<and> good_markers scenario_markers \<and>
   good_reports scenario_search scenario_genomes scenario_markers \<and>
   mset (rev scenario_genomes) = mset scenario_genomes \<and>
   mset (rev scenario_markers) = mset scenario_markers \<and>
   run id scenario_search scenario_genomes scenario_markers =
   run id (\<lambda>m g. if g = ''genomes/Z.faa'' then None else scenario_search m g)
     scenario_genomes scenario_markers \<and>
   (\<exists>M M'. run id scenario_search scenario_genomes scenario_markers = Inr M \<and>
      run rev (\<lambda>m g. if g = ''genomes/Z.faa'' then None else scenario_search m g)
        (rev scenario_genomes) (rev scenario_markers) = Inr M' \<and>
      distinct (df_index M) \<and> distinct (df_index M') \<and>
      set (df_index M') = set (df_index M) \<and>
      distinct (df_columns M) \<and> distinct (df_columns M') \<and>
      set (df_columns M') = set (df_columns M) \<and>
      (\<forall>i c. cell M' i c = cell M i c))"
proof -
  have h: "\<forall>g\<in>set scenario_genomes. \<forall>m\<in>set scenario_markers. scenario_search m g =
       (\<lambda>m g. if g = ''genomes/Z.faa'' then None else scenario_search m g) m g"
    by (simp add: scenario_genomes_def scenario_markers_def)
  have 1: "list_all (\<lambda>g. list_all (\<lambda>m. scenario_search m g =
       (if g = ''genomes/Z.faa'' then None else scenario_search m g)) scenario_markers)
     scenario_genomes"
    using h by (simp add: list_all_iff)
  have pg: "mset (rev scenario_genomes) = mset scenario_genomes" by simp
  have pm: "mset (rev scenario_markers) = mset scenario_markers" by simp
  note t = run_deterministic[OF h, where listdir = id and listdir' = rev
      and genomes' = "rev scenario_genomes" and markers' = "rev scenario_markers"]
  have 2: "run id scenario_search scenario_genomes scenario_markers =
   run id (\<lambda>m g. if g = ''genomes/Z.faa'' then None else scenario_search m g)
     scenario_genomes scenario_markers"
    using t by (rule conjunct1)
  have H: "listing id \<and> listing rev \<and> good_genomes scenario_genomes \<and> good_markers scenario_markers \<and>
     good_reports scenario_search scenario_genomes scenario_markers \<and>
     mset (rev scenario_genomes) = mset scenario_genomes \<and>
     mset (rev scenario_markers) = mset scenario_markers"
    using listing_id listing_rev scenario_good_genomes scenario_good_markers scenario_good_reports
      pg pm by (intro conjI)
  have 3: "\<exists>M M'. run id scenario_search scenario_genomes scenario_markers = Inr M \<and>
      run rev (\<lambda>m g. if g = ''genomes/Z.faa'' then None else scenario_search m g)
        (rev scenario_genomes) (rev scenario_markers) = Inr M' \<and>
      distinct (df_index M) \<and> distinct (df_index M') \<and>
      set (df_index M') = set (df_index M) \<and>
      distinct (df_columns M) \<and> distinct (df_columns M') \<and>
      set (df_columns M') = set (df_columns M) \<and>
      (\<forall>i c. cell M' i c = cell M i c)"
    using t[THEN conjunct2] H by (rule mp)
  show ?thesis
    apply (intro conjI)
             apply (rule 1)
            apply (rule listing_id)
           apply (rule listing_rev)
          apply (rule scenario_good_genomes)
         apply (rule scenario_good_markers)
        apply (rule scenario_good_reports)
       apply (rule pg)
      apply (rule pm)
     apply (rule 2)
    apply (rule 3)
    done
qed

theorem run_order_counterexample:
  "mset (rev scenario_genomes) = mset scenario_genomes \<and>
   run id scenario_search scenario_genomes scenario_markers = Inr scenario_frame \<and>
   run id scenario_search (rev scenario_genomes) scenario_markers = Inr reordered_frame \<and>
   run rev scenario_search scenario_genomes scenario_markers = Inr reordered_frame \<and>
   reordered_frame \<noteq> scenario_frame"
  using scenario_run scenario_run_rev_genomes scenario_run_rev_listdir frames_differ
  by simp

section \<open>C8: the assembler run twice\<close>

text \<open>
  C8. Running the Matrix Assembler a second time on the same aggregated facts and the
  same marker inputs leaves the stored files as the first run left them: the output
  file holds the same bytes, the rendering of the assembled matrix, whatever it held
  before.
\<close>

theorem matrix_assembler_idempotent:
  "matrix_assembler render outfile dicts markers (matrix_assembler render outfile dicts markers files)
     = matrix_assembler render outfile dicts markers files \<and>
   matrix_assembler render outfile dicts markers files outfile = Some (render (assemble dicts markers)) \<and>
   matrix_assembler render outfile dicts markers files outfile
     = matrix_assembler render outfile dicts markers files' outfile"
  by (simp add: matrix_assembler_def to_csv_def)

section \<open>C9: empty inputs\<close>

lemma run_hmms_no_markers:
  assumes "run_hmms search genomes [] fs = Inr fs'" "\<forall>(d, es)\<in>set (fs_dirs fs). es = []"
  shows "\<forall>(d, es)\<in>set (fs_dirs fs'). es = []"
  using assms
proof (induction genomes arbitrary: fs)
  case Nil
  then show ?case by simp
next
  case (Cons g genomes)
  from Cons.prems(1) obtain name fs1 where
    mk: "mkdir name fs = Inr fs1" and rest: "run_hmms search genomes [] fs1 = Inr fs'"
    by (auto split: sum.splits)
  have "fs_dirs fs1 = fs_dirs fs @ [(name, [])]"
    using mk by (auto simp: mkdir_def split: if_splits)
  then have "\<forall>(d, es)\<in>set (fs_dirs fs1). es = []" using Cons.prems(2) by auto
  from Cons.IH[OF rest this] show ?case .
qed

lemma parse_dirs_no_files:
  "\<forall>L\<in>set Ls. L = [] \<Longrightarrow> \<exists>a'. parse_dirs fs Ls a = Inr a' \<and> all_dicts a' = all_dicts a"
proof (induction Ls arbitrary: a)
  case Nil
  then show ?case by simp
next
  case (Cons L Ls)
  then have L: "L = []" and rest: "\<forall>L\<in>set Ls. L = []" by simp_all
  from Cons.IH[OF rest, of "a\<lparr>objs := objs a @ [[]]\<rparr>"] show ?case using L by simp
qed

lemma listing_Nil: "listing listdir \<Longrightarrow> listdir [] = []"
proof -
  assume "listing listdir"
  then have "mset (listdir []) = mset ([] :: string list)" unfolding listing_def by blast
  then show ?thesis by simp
qed

lemma os_walk_no_files:
  assumes "listdir [] = []" "\<forall>(d, es)\<in>set (fs_dirs fs). es = []"
  shows "\<forall>L\<in>set (os_walk listdir fs). L = []"
proof -
  have "(case map_of (fs_dirs fs) d of None \<Rightarrow> [] | Some entries \<Rightarrow> listdir entries) = []" for d
  proof (cases "map_of (fs_dirs fs) d")
    case None
    then show ?thesis by simp
  next
    case (Some es)
    then have "(d, es) \<in> set (fs_dirs fs)" by (rule map_of_SomeD)
    then have "es = []" using assms(2) by auto
    then show ?thesis using Some assms(1) by simp
  qed
  then show ?thesis by (auto simp: os_walk_def)
qed

lemma assemble_Nil:
  "assemble [] markers = \<lparr>df_index = [], df_columns = map col_prot markers, df_cells = []\<rparr>"
  by (simp add: assemble_def from_dict_def from_nested_dict_def unique_first_def all_cols_def
      reindex_def fillna_def)

lemma run_no_files:
  assumes "run_hmms search genomes markers empty_fs = Inr fs"
    and "\<forall>L\<in>set (os_walk listdir fs). L = []"
  shows "run listdir search genomes markers =
     Inr \<lparr>df_index = [], df_columns = map col_prot markers, df_cells = []\<rparr>"
proof -
  from parse_dirs_no_files[OF assms(2), of fs empty_agg]
  obtain a' where "parse_dirs fs (os_walk listdir fs) empty_agg = Inr a'" "all_dicts a' = []"
    by (auto simp: empty_agg_def)
  then have "aggregate listdir search genomes markers = Inr []"
    using assms(1) by (simp add: aggregate_def parse_results_def deref_def)
  then show ?thesis by (simp add: run_def assemble_Nil)
qed

text \<open>
  C9 (as amended). With an empty marker set the matrix that a run writes has no column
  and no row, however many genomes there are, and a run on genomes with good identifiers
  does write it; with an empty genome set the matrix has no row (and one column per
  marker).
\<close>

theorem boundary_empty_inputs:
  assumes "listing listdir"
  shows "(\<forall>M. run listdir search genomes [] = Inr M \<longrightarrow>
            M = \<lparr>df_index = [], df_columns = [], df_cells = []\<rparr>) \<and>
         (good_genomes genomes \<longrightarrow>
            run listdir search genomes [] = Inr \<lparr>df_index = [], df_columns = [], df_cells = []\<rparr>) \<and>
         run listdir search [] markers =
            Inr \<lparr>df_index = [], df_columns = map col_prot markers, df_cells = []\<rparr>"
proof (intro conjI allI impI)
  have l0: "listdir [] = []" using assms by (rule listing_Nil)
  have e: "\<forall>(d, es)\<in>set (fs_dirs empty_fs). es = []" by (simp add: empty_fs_def)
  have key: "run listdir search genomes [] = Inr \<lparr>df_index = [], df_columns = [], df_cells = []\<rparr>"
    if rh: "run_hmms search genomes [] empty_fs = Inr fs" for fs
  proof -
    have "\<forall>(d, es)\<in>set (fs_dirs fs). es = []" by (rule run_hmms_no_markers[OF rh e])
    then have "\<forall>L\<in>set (os_walk listdir fs). L = []"
      using l0 by (intro os_walk_no_files[where listdir = listdir])
    from run_no_files[OF rh this] show ?thesis by simp
  qed
  {
    fix M assume r: "run listdir search genomes [] = Inr M"
    then obtain fs where "run_hmms search genomes [] empty_fs = Inr fs"
      by (auto simp: run_def aggregate_def split: sum.splits)
    from key[OF this] r show "M = \<lparr>df_index = [], df_columns = [], df_cells = []\<rparr>" by simp
  }
  {
    assume gg: "good_genomes genomes"
    have names: "\<forall>g\<in>set genomes. genome_name g = Inr (name_of g) \<and> CHR ''-'' \<notin> set (name_of g) \<and>
              name_of g \<noteq> ''.'' \<and> name_of g \<noteq> ''..''"
      using good_genomes_names[OF gg] by blast
    have dn: "distinct (map name_of genomes)" using gg by (simp add: good_genomes_def)
    have e0: "\<forall>g\<in>set genomes. name_of g \<notin> fst ` set (fs_dirs empty_fs)" by (simp add: empty_fs_def)
    have "\<exists>fs. run_hmms search genomes [] empty_fs = Inr fs"
      using run_hmms_good[OF names dn e0, of "[]" search] by auto
    then show "run listdir search genomes [] = Inr \<lparr>df_index = [], df_columns = [], df_cells = []\<rparr>"
      using key by blast
  }
  have "\<forall>L\<in>set (os_walk listdir empty_fs). L = []"
    using l0 e by (intro os_walk_no_files[where listdir = listdir])
  from run_no_files[OF _ this, of search "[]" markers]
  show "run listdir search [] markers =
            Inr \<lparr>df_index = [], df_columns = map col_prot markers, df_cells = []\<rparr>"
    by simp
qed

theorem boundary_empty_inputs_witness:
  "listing id \<and> good_genomes scenario_genomes \<and>
   run id scenario_search scenario_genomes []
     = Inr \<lparr>df_index = [], df_columns = [], df_cells = []\<rparr> \<and>
   run id scenario_search [] scenario_markers
     = Inr \<lparr>df_index = [], df_columns = map col_prot scenario_markers, df_cells = []\<rparr>"
proof -
  note t = boundary_empty_inputs[OF listing_id, of scenario_search scenario_genomes scenario_markers]
  have "good_genomes scenario_genomes \<longrightarrow>
      run id scenario_search scenario_genomes [] = Inr \<lparr>df_index = [], df_columns = [], df_cells = []\<rparr>"
    using t by (elim conjE)
  then have 1: "run id scenario_search scenario_genomes []
      = Inr \<lparr>df_index = [], df_columns = [], df_cells = []\<rparr>"
    using scenario_good_genomes by (rule mp)
  have 2: "run id scenario_search [] scenario_markers
     = Inr \<lparr>df_index = [], df_columns = map col_prot scenario_markers, df_cells = []\<rparr>"
    using t by (elim conjE)
  show ?thesis using listing_id scenario_good_genomes 1 2 by (intro conjI)
qed

text \<open>
  C9 as stated fails: one genome and no marker give a matrix without rows, not one row
  per genome.
\<close>

theorem boundary_empty_inputs_counterexample:
  "good_genomes [''genomes/A.faa''] \<and>
   run id (\<lambda>m g. Some (Table [(''seqA1'', ''m1'')])) [''genomes/A.faa''] []
     = Inr \<lparr>df_index = [], df_columns = [], df_cells = []\<rparr> \<and>
   length (df_index \<lparr>df_index = [], df_columns = [], df_cells = []\<rparr>) \<noteq> length [''genomes/A.faa'']"
  by code_simp

end
